theory Spec2Isabelle
  imports Complex_Main "HOL-Library.Word" "HOL-Library.Sublist" "HOL-Library.Multiset"
begin

section \<open>The MJPEG frame demuxer of index.js\<close>

text \<open>
  A Node \<^verbatim>\<open>Buffer\<close> is a sequence of bytes. The two markers the parser looks for are
  \<^verbatim>\<open>Buffer.from([0xff, 0xd8])\<close> (start of image) and \<^verbatim>\<open>Buffer.from([0xff, 0xd9])\<close>
  (end of image).
\<close>

type_synonym byte = "8 word"

definition SOI :: "byte list" where
  "SOI = [0xFF, 0xD8]"

definition EOI :: "byte list" where
  "EOI = [0xFF, 0xD9]"

text \<open>
  \<^verbatim>\<open>buf.indexOf(value, byteOffset)\<close>: the index of the first occurrence of the bytes
  \<open>value\<close> in \<open>buf\<close> that starts at \<open>byteOffset\<close> or later, \<open>None\<close> for the -1 of
  JavaScript. \<open>find_first\<close> is the search from the front of a buffer.
\<close>

fun find_first :: "byte list \<Rightarrow> byte list \<Rightarrow> nat option" where
  "find_first pat [] = (if pat = [] then Some 0 else None)"
| "find_first pat (x # xs) =
     (if take (length pat) (x # xs) = pat then Some 0
      else map_option Suc (find_first pat xs))"

definition indexOf :: "byte list \<Rightarrow> byte list \<Rightarrow> nat \<Rightarrow> nat option" where
  "indexOf buf pat byteOffset =
     map_option (\<lambda>i. byteOffset + i) (find_first pat (drop byteOffset buf))"

text \<open>
  \<^verbatim>\<open>buf.subarray(start, end)\<close> and \<^verbatim>\<open>buf.subarray(start)\<close>; both clamp to the length
  of the buffer, as \<open>take\<close> and \<open>drop\<close> do.
\<close>

definition subarray :: "byte list \<Rightarrow> nat \<Rightarrow> nat \<Rightarrow> byte list" where
  "subarray buf start fin = take (fin - start) (drop start buf)"

definition subarray_from :: "byte list \<Rightarrow> nat \<Rightarrow> byte list" where
  "subarray_from buf start = drop start buf"

text \<open>
  The \<^verbatim>\<open>while (true)\<close> loop of the closure returned by \<^verbatim>\<open>createMJPEGFrameParser\<close>.
  The closure variable \<^verbatim>\<open>buf\<close> is passed in and returned; the callback
  \<^verbatim>\<open>onFrameJpegBuffer\<close> acts on a state \<open>'s\<close> of its own, which the loop threads
  through the calls in the order it makes them.
\<close>

function parse_loop :: "('s \<Rightarrow> byte list \<Rightarrow> 's) \<Rightarrow> byte list \<Rightarrow> 's \<Rightarrow> byte list \<times> 's" where
  "parse_loop onFrameJpegBuffer buf s =
     (case indexOf buf SOI 0 of
        None \<Rightarrow>
          (if length buf > 1024 * 1024 then subarray_from buf (length buf - 1024) else buf, s)
      | Some soi \<Rightarrow>
          (case indexOf buf EOI (soi + 2) of
             None \<Rightarrow> (buf, s)
           | Some eoi \<Rightarrow>
               parse_loop onFrameJpegBuffer (subarray_from buf (eoi + 2))
                 (onFrameJpegBuffer s (subarray buf soi (eoi + 2)))))"
  by pat_completeness auto
termination
proof (relation "measure (\<lambda>(f, buf, s). length buf)")
  show "wf (measure (\<lambda>(f :: 's \<Rightarrow> byte list \<Rightarrow> 's, buf :: byte list, s :: 's). length buf))"
    by simp
next
  fix onFrameJpegBuffer :: "'s \<Rightarrow> byte list \<Rightarrow> 's" and buf :: "byte list" and s :: 's
    and soi eoi :: nat
  assume "indexOf buf EOI (soi + 2) = Some eoi"
  then have "drop (soi + 2) buf \<noteq> []"
    by (auto simp: indexOf_def EOI_def)
  then have "buf \<noteq> []"
    by auto
  then show "((onFrameJpegBuffer, subarray_from buf (eoi + 2),
               onFrameJpegBuffer s (subarray buf soi (eoi + 2))),
              (onFrameJpegBuffer, buf, s))
             \<in> measure (\<lambda>(f, buf, s). length buf)"
    by (simp add: subarray_from_def)
qed

text \<open>
  One call \<^verbatim>\<open>parse(chunk)\<close>: \<^verbatim>\<open>buf = Buffer.concat([buf, chunk])\<close>, then the loop.
  The pair is the closure variable \<^verbatim>\<open>buf\<close> and the state of the callback.
\<close>

definition feed ::
  "('s \<Rightarrow> byte list \<Rightarrow> 's) \<Rightarrow> byte list \<times> 's \<Rightarrow> byte list \<Rightarrow> byte list \<times> 's" where
  "feed onFrameJpegBuffer st chunk =
     parse_loop onFrameJpegBuffer (fst st @ chunk) (snd st)"

text \<open>A callback that only records the frames it is given, in the order of the calls.\<close>

definition collect :: "byte list list \<Rightarrow> byte list \<Rightarrow> byte list list" where
  "collect frames frame = frames @ [frame]"

section \<open>The frame callback of main\<close>

subsection \<open>Constants and topK\<close>

definition LABELS :: "string list" where
  "LABELS = [''TEACH'', ''STRONG'', ''STOP'', ''SORRY'', ''PLEASE'']"

definition WIDTH :: nat where
  "WIDTH = 224"

definition HEIGHT :: nat where
  "HEIGHT = 224"

text \<open>\<^verbatim>\<open>String(i)\<close> for an array index: its decimal digits.\<close>

fun String :: "nat \<Rightarrow> string" where
  "String n =
     (if n < 10 then [''0123456789'' ! n]
      else String (n div 10) @ [''0123456789'' ! (n mod 10)])"

declare String.simps [simp del]

text \<open>
  The objects \<^verbatim>\<open>{ label, p }\<close> that \<^verbatim>\<open>topK\<close> builds. A probability is a finite
  JavaScript number, which stands for itself as a real number (it is a rational, so
  nothing is rounded); \<^verbatim>\<open>topK\<close> uses only the order of the probabilities.
\<close>

record entry =
  label :: string
  p :: real

text \<open>
  \<^verbatim>\<open>Array.from(probs).map((p, i) => ({ label: LABELS[i] ?? String(i), p }))\<close>:
  \<^verbatim>\<open>LABELS[i]\<close> is undefined from index \<^verbatim>\<open>LABELS.length\<close> on.
\<close>

definition entries :: "real list \<Rightarrow> entry list" where
  "entries probs =
     map (\<lambda>(i, x). \<lparr>label = (if i < length LABELS then LABELS ! i else String i), p = x\<rparr>)
       (enumerate 0 probs)"

text \<open>
  \<^verbatim>\<open>arr.sort((a, b) => b.p - a.p); return arr.slice(0, k)\<close>. The sort of an array is
  stable, and the comparator puts the larger \<^verbatim>\<open>p\<close> first.
\<close>

definition topK :: "real list \<Rightarrow> nat \<Rightarrow> entry list" where
  "topK probs k = take k (sort_key (\<lambda>e. - p e) (entries probs))"

subsection \<open>The collaborators\<close>

text \<open>
  What \<^verbatim>\<open>jpeg.decode(jpegBuf, { useTArray: true })\<close> can do: throw, return a value that
  fails the test \<^verbatim>\<open>!decoded || !decoded.data\<close>, or return \<^verbatim>\<open>{ width, height, data }\<close>.
\<close>

datatype decoded = DecodeThrows | DecodeNothing | Decoded nat nat "byte list"

text \<open>
  The libraries the callback calls, as functions of an environment; \<open>'t\<close> is the type of
  the tensors of tfjs, which stays abstract.
  \<^item> \<open>decode\<close> is \<^verbatim>\<open>jpeg.decode\<close>;
  \<^item> \<open>tensor3d rgb shape\<close> is \<^verbatim>\<open>tf.tensor3d(rgb, shape, "int32")\<close>;
  \<^item> \<open>normalize\<close> is \<^verbatim>\<open>img.toFloat().div(255).expandDims(0)\<close>;
  \<^item> \<open>predict\<close> is \<^verbatim>\<open>model.predict\<close>, \<open>None\<close> when it throws;
  \<^item> \<open>softmax\<close> is \<^verbatim>\<open>tf.softmax\<close>;
  \<^item> \<open>tensor_data\<close> is the array that the promise \<^verbatim>\<open>probsTensor.data()\<close> resolves to.
\<close>

record 't env =
  decode :: "byte list \<Rightarrow> decoded"
  tensor3d :: "byte list \<Rightarrow> nat list \<Rightarrow> 't"
  normalize :: "'t \<Rightarrow> 't"
  predict :: "'t \<Rightarrow> 't option"
  softmax :: "'t \<Rightarrow> 't"
  tensor_data :: "'t \<Rightarrow> real list"

subsection \<open>The state\<close>

text \<open>
  A line of \<^verbatim>\<open>console.log\<close>: the report of the callback, with the value of
  \<^verbatim>\<open>Date.now()\<close> it was printed at and the entries \<^verbatim>\<open>best\<close> and \<^verbatim>\<open>second\<close>, or the
  line \<^verbatim>\<open>ffplay closed:\<close> of the player's \<^verbatim>\<open>close\<close> listener.
\<close>

record report =
  stamp :: int
  best :: entry
  second :: "entry option"

datatype line = Report report | PlayerClosed

text \<open>
  The variables of \<^verbatim>\<open>main\<close> that the callback reads and writes, and what it does to
  the outside.
  \<^item> \<open>busy\<close> and \<open>lastLog\<close> are the variables of these names;
  \<^item> \<open>killed\<close> is \<^verbatim>\<open>player.killed\<close>;
  \<^item> \<open>sink_closed\<close>: ffplay has exited, so that a write to \<^verbatim>\<open>player.stdin\<close> fails;
  \<^item> \<open>written\<close>: the buffers passed to \<^verbatim>\<open>player.stdin.write\<close>, oldest first;
  \<^item> \<open>write_errors\<close>: the number of writes that failed. \<^verbatim>\<open>write\<close> does not throw on a
    closed pipe: the stream reports the error through its \<^verbatim>\<open>error\<close> event and the
    callback argument of \<^verbatim>\<open>write\<close>, and index.js registers neither;
  \<^item> \<open>offered\<close>: the frames that reached the test \<^verbatim>\<open>if (busy) return\<close>, oldest first;
  \<^item> \<open>decoded_frames\<close>: the buffers passed to \<^verbatim>\<open>jpeg.decode\<close>, oldest first;
  \<^item> \<open>awaiting\<close>: the calls of the callback that are suspended at
    \<^verbatim>\<open>await probsTensor.data()\<close>, oldest first, each with the array it will get;
  \<^item> \<open>console\<close>: the lines printed, oldest first.
  \<open>offered\<close> and \<open>decoded_frames\<close> are history only: nothing reads them.
\<close>

record pipeline =
  busy :: bool
  lastLog :: int
  killed :: bool
  sink_closed :: bool
  written :: "byte list list"
  write_errors :: nat
  offered :: "byte list list"
  decoded_frames :: "byte list list"
  awaiting :: "real list list"
  console :: "line list"

definition init :: pipeline where
  "init = \<lparr>busy = False, lastLog = 0, killed = False, sink_closed = False, written = [],
      write_errors = 0, offered = [], decoded_frames = [], awaiting = [], console = []\<rparr>"

subsection \<open>RGBA to RGB\<close>

text \<open>
  Reading a \<^verbatim>\<open>Uint8Array\<close> past its end gives \<^verbatim>\<open>undefined\<close>, which a \<^verbatim>\<open>Uint8Array\<close>
  stores as 0; writing one past its end does nothing.
\<close>

definition load :: "byte list \<Rightarrow> nat \<Rightarrow> byte" where
  "load a i = (if i < length a then a ! i else 0)"

definition store :: "byte list \<Rightarrow> nat \<Rightarrow> byte \<Rightarrow> byte list" where
  "store a j v = (if j < length a then a[j := v] else a)"

text \<open>
  \<^verbatim>\<open>for (let i = 0, j = 0; i < rgba.length; i += 4) {
    rgb[j++] = rgba[i]; rgb[j++] = rgba[i + 1]; rgb[j++] = rgba[i + 2]; }\<close>
\<close>

function rgb_loop :: "byte list \<Rightarrow> nat \<Rightarrow> nat \<Rightarrow> byte list \<Rightarrow> byte list" where
  "rgb_loop rgba i j rgb =
     (if i < length rgba
      then rgb_loop rgba (i + 4) (j + 3)
             (store (store (store rgb j (load rgba i)) (j + 1) (load rgba (i + 1)))
                (j + 2) (load rgba (i + 2)))
      else rgb)"
  by pat_completeness auto
termination
  by (relation "measure (\<lambda>(rgba, i, j, rgb). length rgba - i)") auto

declare rgb_loop.simps [simp del]

text \<open>The loop on \<^verbatim>\<open>new Uint8Array(WIDTH * HEIGHT * 3)\<close>, which is all zeros.\<close>

definition to_rgb :: "byte list \<Rightarrow> byte list" where
  "to_rgb rgba = rgb_loop rgba 0 0 (replicate (WIDTH * HEIGHT * 3) 0)"

subsection \<open>The callback\<close>

text \<open>
  How a block of statements ends, with the state it ends in: normally (also by
  \<^verbatim>\<open>return\<close>), by an exception, or suspended at the \<^verbatim>\<open>await\<close>.
\<close>

datatype 'a completion = Normal 'a | Throw 'a | Await 'a

fun state_of :: "'a completion \<Rightarrow> 'a" where
  "state_of (Normal s) = s"
| "state_of (Throw s) = s"
| "state_of (Await s) = s"

text \<open>\<^verbatim>\<open>if (!player.killed) { player.stdin.write(jpegBuf); }\<close>\<close>

definition forward :: "pipeline \<Rightarrow> byte list \<Rightarrow> pipeline" where
  "forward st jpegBuf =
     (if \<not> killed st
      then st\<lparr>written := written st @ [jpegBuf],
              write_errors := (if sink_closed st then write_errors st + 1 else write_errors st)\<rparr>
      else st)"

text \<open>
  The \<^verbatim>\<open>try\<close> block up to the \<^verbatim>\<open>await\<close>: decode, build the input, predict, softmax.
\<close>

definition try_block :: "'t env \<Rightarrow> pipeline \<Rightarrow> byte list \<Rightarrow> pipeline completion" where
  "try_block e st0 jpegBuf =
     (let st = st0\<lparr>decoded_frames := decoded_frames st0 @ [jpegBuf]\<rparr>
      in case decode e jpegBuf of
           DecodeThrows \<Rightarrow> Throw st
         | DecodeNothing \<Rightarrow> Normal st
         | Decoded width height rgba \<Rightarrow>
             (case predict e (normalize e (tensor3d e (to_rgb rgba) [HEIGHT, WIDTH, 3])) of
                None \<Rightarrow> Throw st
              | Some output \<Rightarrow>
                  Await (st\<lparr>awaiting := awaiting st @ [tensor_data e (softmax e output)]\<rparr>)))"

text \<open>
  \<^verbatim>\<open>catch (e) { } finally { busy = false; }\<close>: the empty \<^verbatim>\<open>catch\<close> ends an exception,
  and \<^verbatim>\<open>finally\<close> runs when the block has ended, not while it is suspended.
\<close>

fun catch_finally :: "pipeline completion \<Rightarrow> pipeline completion" where
  "catch_finally (Normal st) = Normal (st\<lparr>busy := False\<rparr>)"
| "catch_finally (Throw st) = Normal (st\<lparr>busy := False\<rparr>)"
| "catch_finally (Await st) = Await st"

text \<open>
  One call of the callback, up to its end or to the \<^verbatim>\<open>await\<close>: the write to the player,
  \<^verbatim>\<open>if (busy) return; busy = true;\<close>, then the \<^verbatim>\<open>try\<close> statement.
\<close>

definition on_frame :: "'t env \<Rightarrow> pipeline \<Rightarrow> byte list \<Rightarrow> pipeline completion" where
  "on_frame e st jpegBuf =
     (let st1 = (forward st jpegBuf)\<lparr>offered := offered st @ [jpegBuf]\<rparr>
      in if busy st1 then Normal st1
         else catch_finally (try_block e (st1\<lparr>busy := True\<rparr>) jpegBuf))"

text \<open>
  The rest of the \<^verbatim>\<open>try\<close> block, after the \<^verbatim>\<open>await\<close>; \<open>now\<close> is \<^verbatim>\<open>Date.now()\<close>.
  With no entry, \<^verbatim>\<open>best\<close> is undefined and \<^verbatim>\<open>best.label\<close> throws, after the
  assignment to \<^verbatim>\<open>lastLog\<close>.
\<close>

definition after_await :: "pipeline \<Rightarrow> real list \<Rightarrow> int \<Rightarrow> pipeline completion" where
  "after_await st probs now =
     (if now - lastLog st > 500
      then (case topK probs 2 of
              [] \<Rightarrow> Throw (st\<lparr>lastLog := now\<rparr>)
            | b # rest \<Rightarrow>
                Normal (st\<lparr>lastLog := now,
                  console := console st @
                    [Report \<lparr>stamp = now, best = b,
                       second = (case rest of [] \<Rightarrow> None | s # _ \<Rightarrow> Some s)\<rparr>]\<rparr>))
      else Normal st)"

text \<open>The oldest suspended call goes on after its \<^verbatim>\<open>await\<close>, to the end of the callback.\<close>

definition resume :: "pipeline \<Rightarrow> int \<Rightarrow> pipeline" where
  "resume st now =
     (case awaiting st of
        [] \<Rightarrow> st
      | probs # rest \<Rightarrow> state_of (catch_finally (after_await (st\<lparr>awaiting := rest\<rparr>) probs now)))"

text \<open>
  The promise \<^verbatim>\<open>probsTensor.data()\<close> is rejected: the oldest suspended call goes on
  with the exception, through \<^verbatim>\<open>catch\<close> and \<^verbatim>\<open>finally\<close>.
\<close>

definition reject :: "pipeline \<Rightarrow> pipeline" where
  "reject st =
     (case awaiting st of
        [] \<Rightarrow> st
      | probs # rest \<Rightarrow> state_of (catch_finally (Throw (st\<lparr>awaiting := rest\<rparr>))))"

text \<open>
  The parser calls the callback and drops the promise it returns, so that only the state
  counts for the next call.
\<close>

abbreviation callback :: "'t env \<Rightarrow> pipeline \<Rightarrow> byte list \<Rightarrow> pipeline" where
  "callback e \<equiv> (\<lambda>s f. state_of (on_frame e s f))"

text \<open>
  What the event loop runs, one job at a time: \<^verbatim>\<open>ff.stdout.on("data", (chunk) => parse(chunk))\<close>,
  the resumption of a suspended call with the value or with the rejection of its
  promise, and the exit of ffplay (the \<^verbatim>\<open>close\<close> listener of
  the player prints a line). A job runs to its end before the next one starts, so a run
  of the pipeline is a list of events. The end of the process by an error that nothing
  handles is not among them: \<open>process_step\<close> below adds it.
\<close>

datatype event = Data "byte list" | Resolved int | Rejected | PlayerExit

fun step :: "'t env \<Rightarrow> byte list \<times> pipeline \<Rightarrow> event \<Rightarrow> byte list \<times> pipeline" where
  "step e (buf, st) (Data chunk) = feed (callback e) (buf, st) chunk"
| "step e (buf, st) (Resolved now) = (buf, resume st now)"
| "step e (buf, st) Rejected = (buf, reject st)"
| "step e (buf, st) PlayerExit =
     (buf, st\<lparr>sink_closed := True, console := console st @ [PlayerClosed]\<rparr>)"

definition run :: "'t env \<Rightarrow> event list \<Rightarrow> byte list \<times> pipeline" where
  "run e events = foldl (step e) ([], init) events"

text \<open>The chunks of a run, in the order of their arrival.\<close>

fun chunks_of :: "event list \<Rightarrow> byte list list" where
  "chunks_of [] = []"
| "chunks_of (Data chunk # events) = chunk # chunks_of events"
| "chunks_of (_ # events) = chunks_of events"

text \<open>
  The process around the pipeline. A write to the pipe of a player that has exited fails
  with EPIPE, and \<^verbatim>\<open>player.stdin\<close> then emits its \<^verbatim>\<open>error\<close> event. \<^verbatim>\<open>startFFplayFromStdin\<close>
  registers one listener only, \<^verbatim>\<open>p.on("close", ...)\<close> on the child, and none on
  \<^verbatim>\<open>player.stdin\<close>: an \<^verbatim>\<open>error\<close> event without a listener is thrown, nothing catches it,
  and the process exits. \<open>StdinError\<close> is this event; it can only come after a write has
  failed. The flag of a process state tells that the process has exited: from then on
  nothing runs.
\<close>

datatype occurrence = Event event | StdinError

fun process_step ::
  "'t env \<Rightarrow> bool \<times> byte list \<times> pipeline \<Rightarrow> occurrence \<Rightarrow> bool \<times> byte list \<times> pipeline" where
  "process_step e (exited, s) (Event ev) = (if exited then (exited, s) else (False, step e s ev))"
| "process_step e (exited, s) StdinError =
     (if exited then (exited, s) else (0 < write_errors (snd s), s))"

definition process_run :: "'t env \<Rightarrow> occurrence list \<Rightarrow> bool \<times> byte list \<times> pipeline" where
  "process_run e occs = foldl (process_step e) (False, [], init) occs"

text \<open>The events of the pipeline among what happens to the process.\<close>

fun events_of :: "occurrence list \<Rightarrow> event list" where
  "events_of [] = []"
| "events_of (Event ev # occs) = ev # events_of occs"
| "events_of (StdinError # occs) = events_of occs"

text \<open>
  An environment for the examples: a buffer of four bytes does not decode, any other
  decodes to one pixel, and the classifier answers with three probabilities.
\<close>

definition demo_env :: "unit env" where
  "demo_env =
     \<lparr>decode = (\<lambda>jpegBuf. if length jpegBuf = 4 then DecodeThrows
                           else Decoded 1 1 [10, 20, 30, 255]),
      tensor3d = (\<lambda>rgb shape. ()),
      normalize = (\<lambda>t. t),
      predict = Some,
      softmax = (\<lambda>t. t),
      tensor_data = (\<lambda>t. [1 / 10, 7 / 10, 2 / 10])\<rparr>"

subsection \<open>The operations of tfjs\<close>

text \<open>
  Modelled from the spec: the tensors of tfjs, which is not code of index.js. A tensor is
  its shape and its numbers, over the reals (section 3: a fixed width, fixed height,
  3-channel pixel buffer; section 6: a normalized image tensor, a score vector).
\<close>

record tensor =
  shape :: "nat list"
  vals :: "real list"

text \<open>
  Modelled from the spec: \<^verbatim>\<open>tf.tensor3d(rgb, shape, "int32")\<close>, the raster as a tensor of
  the given shape whose numbers are the pixel bytes, 0 to 255 (section 4.4: fixed-point
  0-255).
\<close>

definition tf_tensor3d :: "byte list \<Rightarrow> nat list \<Rightarrow> tensor" where
  "tf_tensor3d rgb dims = \<lparr>shape = dims, vals = map (\<lambda>b. real (unat b)) rgb\<rparr>"

text \<open>
  Modelled from the spec: \<^verbatim>\<open>img.toFloat().div(255).expandDims(0)\<close>. Section 4.4: the
  numeric range the classifier expects, fixed-point 0-255 to normalized 0-1 float,
  arranged as a single-image batch.
\<close>

definition tf_normalize :: "tensor \<Rightarrow> tensor" where
  "tf_normalize t = \<lparr>shape = 1 # shape t, vals = map (\<lambda>x. x / 255) (vals t)\<rparr>"

text \<open>
  Modelled from the spec: \<^verbatim>\<open>tf.softmax\<close> on the scores of a batch of one image. Glossary:
  softmax normalization transforms raw classifier scores into a probability distribution
  summing to 1; each score \<open>x\<close> becomes \<open>exp x\<close> over the sum of the \<open>exp\<close> of all scores.
\<close>

definition tf_softmax :: "tensor \<Rightarrow> tensor" where
  "tf_softmax t =
     \<lparr>shape = shape t,
      vals = map (\<lambda>x. exp x / sum_list (map exp (vals t))) (vals t)\<rparr>"

text \<open>
  Modelled from the spec: the environment whose tensor operations are the ones above;
  \<^verbatim>\<open>probsTensor.data()\<close> gives the numbers of the tensor. The decoder and the classifier
  stay arbitrary (section 1: an opaque classifier, a decode function with a defined
  failure mode).
\<close>

definition tf_env :: "(byte list \<Rightarrow> decoded) \<Rightarrow> (tensor \<Rightarrow> tensor option) \<Rightarrow> tensor env" where
  "tf_env dec model =
     \<lparr>decode = dec, tensor3d = tf_tensor3d, normalize = tf_normalize, predict = model,
      softmax = tf_softmax, tensor_data = vals\<rparr>"

text \<open>
  Modelled from the spec: the value of \<^verbatim>\<open>input\<close> in the callback, with these operations.
\<close>

definition input_tensor :: "byte list \<Rightarrow> tensor" where
  "input_tensor rgba = tf_normalize (tf_tensor3d (to_rgb rgba) [HEIGHT, WIDTH, 3])"

section \<open>Notions for the statements and the proofs\<close>

text \<open>
  \<open>occurs_at pat xs i\<close>: the bytes \<open>pat\<close> stand in \<open>xs\<close> at index \<open>i\<close>. The search
  functions are characterised by it: the index found is the least occurrence.
\<close>

definition occurs_at :: "byte list \<Rightarrow> byte list \<Rightarrow> nat \<Rightarrow> bool" where
  "occurs_at pat xs i = (take (length pat) (drop i xs) = pat)"

text \<open>
  An auxiliary view of the loop, used in the proofs only: the frames the loop cuts out
  of a buffer, and the bytes it leaves, when nothing is truncated. \<open>keep_tail\<close> is
  the truncation of \<^verbatim>\<open>if (buf.length > 1024 * 1024) buf = buf.subarray(buf.length - 1024)\<close>,
  which the loop reaches only when the buffer holds no start marker.
\<close>

function split_frames :: "byte list \<Rightarrow> byte list list \<times> byte list" where
  "split_frames buf =
     (case indexOf buf SOI 0 of
        None \<Rightarrow> ([], buf)
      | Some soi \<Rightarrow>
          (case indexOf buf EOI (soi + 2) of
             None \<Rightarrow> ([], buf)
           | Some eoi \<Rightarrow>
               (subarray buf soi (eoi + 2) # fst (split_frames (subarray_from buf (eoi + 2))),
                snd (split_frames (subarray_from buf (eoi + 2))))))"
  by pat_completeness auto
termination
proof (relation "measure length", goal_cases)
  case 1
  show ?case by simp
next
  case (2 buf soi eoi)
  then have "drop (soi + 2) buf \<noteq> []"
    by (auto simp: indexOf_def EOI_def)
  then have "buf \<noteq> []"
    by auto
  then show ?case
    by (simp add: subarray_from_def)
next
  case (3 buf soi eoi)
  then have "drop (soi + 2) buf \<noteq> []"
    by (auto simp: indexOf_def EOI_def)
  then have "buf \<noteq> []"
    by auto
  then show ?case
    by (simp add: subarray_from_def)
qed

declare split_frames.simps [simp del]
declare parse_loop.simps [simp del]

definition keep_tail :: "byte list \<Rightarrow> byte list" where
  "keep_tail buf =
     (if indexOf buf SOI 0 = None \<and> length buf > 1024 * 1024
      then subarray_from buf (length buf - 1024) else buf)"

text \<open>
  \<open>covers u w\<close>: the window \<open>w\<close> is what is left of the untruncated bytes \<open>u\<close> after
  truncations: a suffix of \<open>u\<close>, not empty when something was cut, and no start marker
  begins in the part that was cut.
\<close>

definition covers :: "byte list \<Rightarrow> byte list \<Rightarrow> bool" where
  "covers u w \<longleftrightarrow>
     (\<exists>pre. u = pre @ w \<and> (pre = [] \<or> (w \<noteq> [] \<and> (\<forall>j<length pre. \<not> occurs_at SOI u j))))"

text \<open>
  A frame delimited by the two markers: it starts with the start marker and ends with
  the end marker. \<open>end_marker_last\<close>: no end marker stands in the frame, from its third
  byte on, before the one that ends it.
\<close>

definition delimited :: "byte list \<Rightarrow> bool" where
  "delimited frame \<longleftrightarrow>
     4 \<le> length frame \<and> take 2 frame = SOI \<and> drop (length frame - 2) frame = EOI"

definition end_marker_last :: "byte list \<Rightarrow> bool" where
  "end_marker_last frame \<longleftrightarrow> indexOf frame EOI 2 = Some (length frame - 2)"

text \<open>
  The part of a window that holds no start marker: the bytes before its first start
  marker, all of it when it has none.
\<close>

definition markerless_prefix :: "byte list \<Rightarrow> byte list" where
  "markerless_prefix buf = (case indexOf buf SOI 0 of None \<Rightarrow> buf | Some soi \<Rightarrow> take soi buf)"

text \<open>
  At most one call of the callback is suspended, and \<open>busy\<close> tells whether one is.
\<close>

definition one_in_flight :: "pipeline \<Rightarrow> bool" where
  "one_in_flight st \<longleftrightarrow> length (awaiting st) \<le> 1 \<and> (busy st \<longleftrightarrow> awaiting st \<noteq> [])"

text \<open>
  \<open>in_stream_order frames stream\<close>: the frames stand in the stream one after the other,
  without overlap, in the order of the list.
\<close>

fun in_stream_order :: "byte list list \<Rightarrow> byte list \<Rightarrow> bool" where
  "in_stream_order [] stream = True"
| "in_stream_order (frame # frames) stream =
     (\<exists>k \<in> {..length stream}.
        take (length frame) (drop k stream) = frame \<and>
        in_stream_order frames (drop (k + length frame) stream))"

text \<open>
  The state of the callback after the frames \<open>emitted\<close> were handed to it: the player
  was not killed, every frame was written to the player and reached the test of \<open>busy\<close>, in this
  order, and the frames passed to the decoder are some of them, in this order.
\<close>

definition fanned_out :: "pipeline \<Rightarrow> byte list list \<Rightarrow> bool" where
  "fanned_out st emitted \<longleftrightarrow>
     \<not> killed st \<and> written st = emitted \<and> offered st = emitted \<and>
     subseq (decoded_frames st) emitted"

text \<open>
  The reports among the lines printed, and the entries that a report shows: \<^verbatim>\<open>best\<close>,
  and \<^verbatim>\<open>second\<close> when there is one.
\<close>

fun reports :: "line list \<Rightarrow> report list" where
  "reports [] = []"
| "reports (Report r # lines) = r # reports lines"
| "reports (PlayerClosed # lines) = reports lines"

definition reported :: "report \<Rightarrow> entry list" where
  "reported r = best r # (case second r of None \<Rightarrow> [] | Some s \<Rightarrow> [s])"

text \<open>
  No report is later than \<open>lastLog\<close>, and of two reports the later one was printed more
  than 500 ms, by the clock, after the earlier one.
\<close>

definition throttled :: "pipeline \<Rightarrow> bool" where
  "throttled st \<longleftrightarrow>
     (\<forall>r \<in> set (reports (console st)). stamp r \<le> lastLog st) \<and>
     sorted_wrt (\<lambda>a b. 500 < b - a) (map stamp (reports (console st)))"

text \<open>
  The length of the longest chunk of a list, and what holds of the window after every
  feed of a run in which no chunk was longer than \<open>m\<close>: without a start marker the
  window is not above the threshold, and with one, the bytes before it are at most the
  threshold and \<open>m\<close>, and no end marker follows it.
\<close>

fun longest :: "byte list list \<Rightarrow> nat" where
  "longest [] = 0"
| "longest (chunk # chunks) = max (length chunk) (longest chunks)"

definition window_ok :: "nat \<Rightarrow> byte list \<Rightarrow> bool" where
  "window_ok m w =
     (case indexOf w SOI 0 of
        None \<Rightarrow> length w \<le> 1024 * 1024
      | Some soi \<Rightarrow> soi \<le> 1024 * 1024 + m \<and> indexOf w EOI (soi + 2) = None)"

section \<open>Properties of the demuxer\<close>

subsection \<open>Occurrences of a marker\<close>

lemma occurs_at_bound: "pat \<noteq> [] \<Longrightarrow> occurs_at pat xs i \<Longrightarrow> i + length pat \<le> length xs"
proof -
  assume a: "pat \<noteq> []" "occurs_at pat xs i"
  then have "length (take (length pat) (drop i xs)) = length pat"
    by (simp add: occurs_at_def)
  with a show ?thesis by (cases "i < length xs") auto
qed

lemma occurs_at_Cons_Suc [simp]: "occurs_at pat (x # xs) (Suc i) = occurs_at pat xs i"
  by (simp add: occurs_at_def)

lemma find_first_Some_iff:
  "pat \<noteq> [] \<Longrightarrow>
   find_first pat xs = Some i \<longleftrightarrow> occurs_at pat xs i \<and> (\<forall>j<i. \<not> occurs_at pat xs j)"
proof (induction xs arbitrary: i)
  case Nil
  then show ?case by (auto simp: occurs_at_def)
next
  case (Cons x xs)
  show ?case
  proof (cases "take (length pat) (x # xs) = pat")
    case True
    then have o: "occurs_at pat (x # xs) 0" by (simp add: occurs_at_def)
    from True have "find_first pat (x # xs) = Some 0" by simp
    with o show ?thesis by (cases i) auto
  next
    case False
    then have o: "\<not> occurs_at pat (x # xs) 0" by (simp add: occurs_at_def)
    show ?thesis
    proof (cases i)
      case 0
      with False o show ?thesis by auto
    next
      case (Suc k)
      have "(\<forall>j<Suc k. \<not> occurs_at pat (x # xs) j) \<longleftrightarrow> (\<forall>j<k. \<not> occurs_at pat xs j)"
        using o by (auto simp: less_Suc_eq_0_disj)
      with False Suc Cons.IH [OF Cons.prems, of k] show ?thesis by auto
    qed
  qed
qed

lemma find_first_None_iff:
  "pat \<noteq> [] \<Longrightarrow> find_first pat xs = None \<longleftrightarrow> (\<forall>j. \<not> occurs_at pat xs j)"
proof (induction xs)
  case Nil
  then show ?case by (auto simp: occurs_at_def)
next
  case (Cons x xs)
  have "(\<forall>j. \<not> occurs_at pat (x # xs) j) \<longleftrightarrow>
        \<not> occurs_at pat (x # xs) 0 \<and> (\<forall>j. \<not> occurs_at pat xs j)"
    by (metis occurs_at_Cons_Suc not0_implies_Suc)
  with Cons show ?case by (auto simp: occurs_at_def)
qed

lemma occurs_at_drop [simp]: "occurs_at pat (drop k xs) j = occurs_at pat xs (k + j)"
  by (simp add: occurs_at_def add.commute)

lemma occurs_at_append1:
  "i + length pat \<le> length xs \<Longrightarrow> occurs_at pat (xs @ ys) i = occurs_at pat xs i"
  by (simp add: occurs_at_def)

lemma occurs_at_append2 [simp]:
  "occurs_at pat (pre @ xs) (length pre + i) = occurs_at pat xs i"
  by (simp add: occurs_at_def)

lemma indexOf_Some_iff:
  assumes "pat \<noteq> []"
  shows "indexOf buf pat k = Some i \<longleftrightarrow>
         k \<le> i \<and> occurs_at pat buf i \<and> (\<forall>j. k \<le> j \<and> j < i \<longrightarrow> \<not> occurs_at pat buf j)"
proof
  assume "indexOf buf pat k = Some i"
  then obtain m where m: "find_first pat (drop k buf) = Some m" "i = k + m"
    by (auto simp: indexOf_def)
  from m(1) have o: "occurs_at pat buf (k + m)" "\<forall>j<m. \<not> occurs_at pat buf (k + j)"
    using assms by (simp_all add: find_first_Some_iff)
  have "\<not> occurs_at pat buf j" if "k \<le> j" "j < i" for j
  proof -
    from that m(2) have "j - k < m" "j = k + (j - k)" by auto
    with o(2) show ?thesis by metis
  qed
  with o(1) m(2) show "k \<le> i \<and> occurs_at pat buf i \<and>
    (\<forall>j. k \<le> j \<and> j < i \<longrightarrow> \<not> occurs_at pat buf j)"
    by auto
next
  assume r: "k \<le> i \<and> occurs_at pat buf i \<and>
    (\<forall>j. k \<le> j \<and> j < i \<longrightarrow> \<not> occurs_at pat buf j)"
  then have "occurs_at pat (drop k buf) (i - k)" "\<forall>j<i - k. \<not> occurs_at pat (drop k buf) j"
    by auto
  then have "find_first pat (drop k buf) = Some (i - k)"
    using assms by (simp add: find_first_Some_iff)
  with r show "indexOf buf pat k = Some i"
    by (simp add: indexOf_def)
qed

lemma indexOf_None_iff:
  assumes "pat \<noteq> []"
  shows "indexOf buf pat k = None \<longleftrightarrow> (\<forall>j\<ge>k. \<not> occurs_at pat buf j)"
proof -
  have "indexOf buf pat k = None \<longleftrightarrow> (\<forall>j. \<not> occurs_at pat buf (k + j))"
    using assms by (simp add: indexOf_def find_first_None_iff)
  also have "\<dots> \<longleftrightarrow> (\<forall>j\<ge>k. \<not> occurs_at pat buf j)"
    by (metis le_add1 le_Suc_ex)
  finally show ?thesis .
qed

lemma indexOf_bound:
  "pat \<noteq> [] \<Longrightarrow> indexOf buf pat k = Some i \<Longrightarrow> i + length pat \<le> length buf"
  by (simp add: indexOf_Some_iff occurs_at_bound)

lemma indexOf_append:
  assumes "pat \<noteq> []" and "indexOf buf pat k = Some i"
  shows "indexOf (buf @ c) pat k = Some i"
proof -
  from assms have i: "k \<le> i" "occurs_at pat buf i"
    and least: "\<And>j. k \<le> j \<Longrightarrow> j < i \<Longrightarrow> \<not> occurs_at pat buf j"
    by (simp_all add: indexOf_Some_iff)
  from assms have b: "i + length pat \<le> length buf"
    by (rule indexOf_bound)
  then have "occurs_at pat (buf @ c) i"
    using i(2) by (simp add: occurs_at_append1)
  moreover have "\<not> occurs_at pat (buf @ c) j" if "k \<le> j" "j < i" for j
    using that b least [of j] by (simp add: occurs_at_append1)
  ultimately show ?thesis
    using assms(1) i(1) by (simp add: indexOf_Some_iff)
qed

lemma indexOf_shift:
  assumes "pat \<noteq> []"
  shows "indexOf (pre @ buf) pat (length pre + k) =
         map_option (\<lambda>i. length pre + i) (indexOf buf pat k)"
  by (simp add: indexOf_def option.map_comp comp_def add.assoc)

lemma SOI_ne [simp]: "SOI \<noteq> []" and EOI_ne [simp]: "EOI \<noteq> []"
  and length_SOI [simp]: "length SOI = 2" and length_EOI [simp]: "length EOI = 2"
  by (simp_all add: SOI_def EOI_def)

lemma parse_loop_split:
  "parse_loop f buf s =
     (keep_tail (snd (split_frames buf)), foldl f s (fst (split_frames buf)))"
proof (induction f buf s rule: parse_loop.induct)
  case (1 f buf s)
  show ?case
  proof (cases "indexOf buf SOI 0")
    case None
    then show ?thesis
      by (simp add: parse_loop.simps [of f buf] split_frames.simps [of buf] keep_tail_def)
  next
    case (Some soi)
    show ?thesis
    proof (cases "indexOf buf EOI (soi + 2)")
      case None
      with Some show ?thesis
        by (simp add: parse_loop.simps [of f buf] split_frames.simps [of buf] keep_tail_def)
    next
      case (Some eoi)
      with \<open>indexOf buf SOI 0 = Some soi\<close> "1.IH" [of soi eoi] show ?thesis
        by (simp add: parse_loop.simps [of f buf] split_frames.simps [of buf])
    qed
  qed
qed

lemma subarray_append1:
  "fin \<le> length u \<Longrightarrow> subarray (u @ c) start fin = subarray u start fin"
  by (simp add: subarray_def)

lemma subarray_shift:
  "subarray (pre @ x) (length pre + start) (length pre + fin) = subarray x start fin"
  by (simp add: subarray_def)

lemma subarray_from_append1:
  "k \<le> length u \<Longrightarrow> subarray_from (u @ c) k = subarray_from u k @ c"
  by (simp add: subarray_from_def)

lemma subarray_from_shift:
  "subarray_from (pre @ x) (length pre + k) = subarray_from x k"
  by (simp add: subarray_from_def)

lemma split_frames_append:
  "split_frames (u @ c) =
     (fst (split_frames u) @ fst (split_frames (snd (split_frames u) @ c)),
      snd (split_frames (snd (split_frames u) @ c)))"
proof (induction u rule: split_frames.induct)
  case (1 u)
  show ?case
  proof (cases "indexOf u SOI 0")
    case None
    then have "split_frames u = ([], u)"
      by (simp add: split_frames.simps [of u])
    then show ?thesis by simp
  next
    case (Some soi)
    note soi = this
    show ?thesis
    proof (cases "indexOf u EOI (soi + 2)")
      case None
      with soi have "split_frames u = ([], u)"
        by (simp add: split_frames.simps [of u])
      then show ?thesis by simp
    next
      case (Some eoi)
      from Some have b: "eoi + 2 \<le> length u"
        using indexOf_bound [of EOI u "soi + 2" eoi] by simp
      have s1: "indexOf (u @ c) SOI 0 = Some soi"
        using soi by (simp add: indexOf_append)
      have s2: "indexOf (u @ c) EOI (soi + 2) = Some eoi"
        using Some by (simp add: indexOf_append)
      let ?r = "subarray_from u (eoi + 2)"
      have u: "split_frames u =
          (subarray u soi (eoi + 2) # fst (split_frames ?r), snd (split_frames ?r))"
        using soi Some by (simp add: split_frames.simps [of u])
      have uc: "split_frames (u @ c) =
          (subarray u soi (eoi + 2) # fst (split_frames (?r @ c)), snd (split_frames (?r @ c)))"
        using s1 s2 b
        by (simp add: split_frames.simps [of "u @ c"] subarray_append1 subarray_from_append1)
      from "1.IH"(1) [OF soi Some] have
        "split_frames (?r @ c) =
           (fst (split_frames ?r) @ fst (split_frames (snd (split_frames ?r) @ c)),
            snd (split_frames (snd (split_frames ?r) @ c)))" .
      with u uc show ?thesis by simp
    qed
  qed
qed

lemma covers_refl [simp]: "covers u u"
  by (simp add: covers_def)

lemma indexOf_skip:
  assumes "pat \<noteq> []" and "\<And>j. k \<le> j \<Longrightarrow> j < k' \<Longrightarrow> \<not> occurs_at pat buf j" and "k \<le> k'"
  shows "indexOf buf pat k = indexOf buf pat k'"
proof (cases "indexOf buf pat k'")
  case None
  then have "\<forall>j\<ge>k'. \<not> occurs_at pat buf j"
    using assms(1) by (simp add: indexOf_None_iff)
  with assms(2) have "\<forall>j\<ge>k. \<not> occurs_at pat buf j"
    by (metis not_le)
  then have "indexOf buf pat k = None"
    using assms(1) by (simp add: indexOf_None_iff)
  with None show ?thesis by simp
next
  case (Some i)
  then have i: "k' \<le> i" "occurs_at pat buf i" "\<And>j. k' \<le> j \<Longrightarrow> j < i \<Longrightarrow> \<not> occurs_at pat buf j"
    using assms(1) by (simp_all add: indexOf_Some_iff)
  have "\<not> occurs_at pat buf j" if "k \<le> j" "j < i" for j
    using that assms(2) [of j] i(3) [of j] by (cases "j < k'") auto
  with i(1,2) assms(1,3) have "indexOf buf pat k = Some i"
    by (simp add: indexOf_Some_iff)
  with Some show ?thesis by simp
qed

lemma covers_keep_tail:
  assumes "covers a b"
  shows "covers a (keep_tail b)"
proof (cases "indexOf b SOI 0 = None \<and> length b > 1024 * 1024")
  case False
  with assms show ?thesis by (auto simp: keep_tail_def)
next
  case True
  let ?n = "length b - 1024"
  from True have kt: "keep_tail b = drop ?n b"
    by (simp add: keep_tail_def subarray_from_def)
  from True have "?n < length b" by arith
  then have ne: "drop ?n b \<noteq> []" by simp
  from True have nob: "\<And>j. \<not> occurs_at SOI b j"
    by (simp add: indexOf_None_iff)
  from assms obtain pre where pre: "a = pre @ b"
    and c: "pre = [] \<or> (b \<noteq> [] \<and> (\<forall>j<length pre. \<not> occurs_at SOI a j))"
    by (auto simp: covers_def)
  have a: "a = (pre @ take ?n b) @ drop ?n b"
    using pre by simp
  have "\<not> occurs_at SOI a j" for j
  proof (cases "j < length pre")
    case True
    with c show ?thesis by auto
  next
    case False
    then have "j = length pre + (j - length pre)" by simp
    then have "occurs_at SOI a j = occurs_at SOI b (j - length pre)"
      using pre occurs_at_append2 [of SOI pre b "j - length pre"] by simp
    with nob show ?thesis by simp
  qed
  with a ne kt show ?thesis
    unfolding covers_def by metis
qed

lemma covers_split_frames:
  assumes "covers u w"
  shows "fst (split_frames (w @ c)) = fst (split_frames (u @ c)) \<and>
         covers (snd (split_frames (u @ c))) (snd (split_frames (w @ c)))"
proof -
  from assms obtain pre where pre: "u = pre @ w"
    and c: "pre = [] \<or> (w \<noteq> [] \<and> (\<forall>j<length pre. \<not> occurs_at SOI u j))"
    by (auto simp: covers_def)
  show ?thesis
  proof (cases "pre = []")
    case True
    with pre show ?thesis by simp
  next
    case False
    with c have w: "w \<noteq> []" and no: "\<And>j. j < length pre \<Longrightarrow> \<not> occurs_at SOI u j"
      by auto
    let ?x = "w @ c"
    have uc: "u @ c = pre @ ?x" using pre by simp
    have no': "\<not> occurs_at SOI (pre @ ?x) j" if "j < length pre" for j
    proof -
      from that w have "j + length SOI \<le> length u"
        using pre by (cases w) auto
      then have "occurs_at SOI (u @ c) j = occurs_at SOI u j"
        by (rule occurs_at_append1)
      with no [OF that] uc show ?thesis by simp
    qed
    have soi_eq: "indexOf (pre @ ?x) SOI 0 = map_option (\<lambda>i. length pre + i) (indexOf ?x SOI 0)"
    proof -
      have "indexOf (pre @ ?x) SOI 0 = indexOf (pre @ ?x) SOI (length pre)"
        by (rule indexOf_skip) (use no' in auto)
      also have "\<dots> = map_option (\<lambda>i. length pre + i) (indexOf ?x SOI 0)"
        using indexOf_shift [of SOI pre ?x 0] by simp
      finally show ?thesis .
    qed
    have cov: "covers (pre @ ?x) ?x"
      unfolding covers_def using w no' by auto
    show ?thesis
    proof (cases "indexOf ?x SOI 0")
      case None
      with soi_eq have "split_frames (pre @ ?x) = ([], pre @ ?x)" "split_frames ?x = ([], ?x)"
        by (simp_all add: split_frames.simps [of "pre @ ?x"] split_frames.simps [of ?x])
      with cov uc show ?thesis by simp
    next
      case (Some soi)
      note soi = this
      have eoi_eq: "indexOf (pre @ ?x) EOI (length pre + soi + 2) =
          map_option (\<lambda>i. length pre + i) (indexOf ?x EOI (soi + 2))"
        using indexOf_shift [of EOI pre ?x "soi + 2"] by (simp add: add.assoc)
      show ?thesis
      proof (cases "indexOf ?x EOI (soi + 2)")
        case None
        with soi soi_eq eoi_eq
        have "split_frames (pre @ ?x) = ([], pre @ ?x)" "split_frames ?x = ([], ?x)"
          by (simp_all add: split_frames.simps [of "pre @ ?x"] split_frames.simps [of ?x])
        with cov uc show ?thesis by simp
      next
        case (Some eoi)
        let ?r = "subarray_from ?x (eoi + 2)"
        have 1: "split_frames ?x =
            (subarray ?x soi (eoi + 2) # fst (split_frames ?r), snd (split_frames ?r))"
          using soi Some by (simp add: split_frames.simps [of ?x])
        have f: "subarray (pre @ ?x) (length pre + soi) (length pre + eoi + 2) =
            subarray ?x soi (eoi + 2)"
          using subarray_shift [of pre ?x soi "eoi + 2"] by (simp add: add.assoc)
        have r: "subarray_from (pre @ ?x) (length pre + eoi + 2) = ?r"
          using subarray_from_shift [of pre ?x "eoi + 2"] by (simp add: add.assoc)
        have 2: "split_frames (pre @ ?x) =
            (subarray ?x soi (eoi + 2) # fst (split_frames ?r), snd (split_frames ?r))"
          using soi Some soi_eq eoi_eq f r
          by (simp add: split_frames.simps [of "pre @ ?x"])
        from 1 2 uc show ?thesis by simp
      qed
    qed
  qed
qed

lemma foldl_feed:
  "covers (snd (split_frames (concat cs))) (fst (foldl (feed f) ([], s) cs)) \<and>
   snd (foldl (feed f) ([], s) cs) = foldl f s (fst (split_frames (concat cs)))"
proof (induction cs rule: rev_induct)
  case Nil
  have "indexOf [] SOI 0 = None"
    by (simp add: indexOf_def SOI_def)
  then have "split_frames [] = ([], [])"
    by (simp add: split_frames.simps [of "[]"])
  then show ?case by simp
next
  case (snoc c cs)
  let ?U = "concat cs"
  let ?u = "snd (split_frames ?U)"
  let ?st = "foldl (feed f) ([], s) cs"
  let ?w = "fst ?st"
  from snoc have cov: "covers ?u ?w"
    and t: "snd ?st = foldl f s (fst (split_frames ?U))"
    by simp_all
  have app: "split_frames (?U @ c) =
      (fst (split_frames ?U) @ fst (split_frames (?u @ c)), snd (split_frames (?u @ c)))"
    by (rule split_frames_append)
  from covers_split_frames [OF cov, of c]
  have fr: "fst (split_frames (?w @ c)) = fst (split_frames (?u @ c))"
    and cv: "covers (snd (split_frames (?u @ c))) (snd (split_frames (?w @ c)))"
    by simp_all
  have step: "feed f ?st c =
      (keep_tail (snd (split_frames (?w @ c))), foldl f (snd ?st) (fst (split_frames (?w @ c))))"
    by (simp add: feed_def parse_loop_split)
  show ?case
    using app fr covers_keep_tail [OF cv] t by (simp add: step)
qed

lemma feed_whole:
  "snd (feed f ([], s) bytes) = foldl f s (fst (split_frames bytes))"
  by (simp add: feed_def parse_loop_split)

text \<open>
  Claim C2 (chunk-boundary independence). For every list of chunks, feeding the parser
  the chunks one at a time, starting from the empty window, makes the callback see
  exactly the same frames in the same order as feeding it the concatenation of the
  chunks as one single chunk.
\<close>

theorem chunk_boundary_independence:
  "snd (foldl (feed collect) ([], []) chunks) = snd (feed collect ([], []) (concat chunks))"
  by (simp add: foldl_feed feed_whole)

lemma foldl_collect: "foldl collect acc fs = acc @ fs"
  by (induction fs arbitrary: acc) (simp_all add: collect_def)

subsection \<open>Back-to-back frames\<close>

text \<open>
  Claim C3 as stated fails. The stream is one frame, delimited by the two markers: the
  start marker, a comment segment (marker FF FE, length 00 04) whose two bytes of payload
  are FF D9, and the end marker. The parser cuts at the first end marker it finds after
  the start marker, the one inside the comment: it emits the first eight bytes as a
  frame, not the frame of ten bytes, and keeps the last two bytes in the window.
\<close>

theorem interior_end_marker_splits_frame:
  "list_all delimited [[0xFF, 0xD8, 0xFF, 0xFE, 0x00, 0x04, 0xFF, 0xD9, 0xFF, 0xD9]] \<and>
   feed collect ([], []) (concat [[0xFF, 0xD8, 0xFF, 0xFE, 0x00, 0x04, 0xFF, 0xD9, 0xFF, 0xD9]]) =
     ([0xFF, 0xD9], [[0xFF, 0xD8, 0xFF, 0xFE, 0x00, 0x04, 0xFF, 0xD9]]) \<and>
   snd (feed collect ([], [])
          (concat [[0xFF, 0xD8, 0xFF, 0xFE, 0x00, 0x04, 0xFF, 0xD9, 0xFF, 0xD9]])) \<noteq>
     [[0xFF, 0xD8, 0xFF, 0xFE, 0x00, 0x04, 0xFF, 0xD9, 0xFF, 0xD9]]"
  by (simp add: delimited_def feed_def parse_loop.simps indexOf_def SOI_def EOI_def
      subarray_def subarray_from_def collect_def)

lemma split_frames_frame:
  assumes "delimited f" and "end_marker_last f"
  shows "split_frames (f @ rest) = (f # fst (split_frames rest), snd (split_frames rest))"
proof -
  from assms(1) have len: "4 \<le> length f" and st: "take 2 f = SOI"
    by (simp_all add: delimited_def)
  from st have "occurs_at SOI f 0"
    by (simp add: occurs_at_def)
  then have "indexOf f SOI 0 = Some 0"
    by (simp add: indexOf_Some_iff)
  then have s: "indexOf (f @ rest) SOI 0 = Some 0"
    by (simp add: indexOf_append)
  from assms(2) have e: "indexOf (f @ rest) EOI 2 = Some (length f - 2)"
    unfolding end_marker_last_def by (rule indexOf_append [OF EOI_ne])
  from len have f: "subarray (f @ rest) 0 (length f - 2 + 2) = f"
    and r: "subarray_from (f @ rest) (length f - 2 + 2) = rest"
    by (simp_all add: subarray_def subarray_from_def)
  show ?thesis
    by (subst split_frames.simps) (simp only: s e f r option.case add_0)
qed

lemma split_frames_Nil: "split_frames [] = ([], [])"
proof -
  have "indexOf [] SOI 0 = None"
    by (simp add: indexOf_def SOI_def)
  then show ?thesis
    by (simp add: split_frames.simps [of "[]"])
qed

lemma split_frames_concat:
  "list_all (\<lambda>f. delimited f \<and> end_marker_last f) fs \<Longrightarrow> split_frames (concat fs) = (fs, [])"
  by (induction fs) (simp_all add: split_frames_Nil split_frames_frame)

lemma keep_tail_Nil: "keep_tail [] = []"
  by (simp add: keep_tail_def)

text \<open>
  Claim C3, amended. For every stream made of frames back to back, each delimited by a
  start marker and an end marker and with no other end marker from its third byte on,
  one feed from the empty window emits exactly these frames, byte for byte and in their
  order, and leaves the window empty.
\<close>

theorem back_to_back_frames:
  assumes "list_all (\<lambda>f. delimited f \<and> end_marker_last f) fs"
  shows "feed collect ([], []) (concat fs) = ([], fs)"
  using assms
  by (simp add: feed_def parse_loop_split split_frames_concat keep_tail_Nil foldl_collect)

theorem back_to_back_frames_witness:
  "list_all (\<lambda>f. delimited f \<and> end_marker_last f)
     [[0xFF, 0xD8, 1, 0xFF, 0xD9], [0xFF, 0xD8, 0xFF, 0xD9]] \<and>
   feed collect ([], []) (concat [[0xFF, 0xD8, 1, 0xFF, 0xD9], [0xFF, 0xD8, 0xFF, 0xD9]]) =
     ([], [[0xFF, 0xD8, 1, 0xFF, 0xD9], [0xFF, 0xD8, 0xFF, 0xD9]])"
proof -
  have h: "list_all (\<lambda>f. delimited f \<and> end_marker_last f)
     [[0xFF, 0xD8, 1, 0xFF, 0xD9], [0xFF, 0xD8, 0xFF, 0xD9]]"
    by (simp add: delimited_def end_marker_last_def indexOf_def SOI_def EOI_def)
  from h back_to_back_frames [OF h] show ?thesis by simp
qed

subsection \<open>The size of a window without a start marker\<close>

lemma occurs_at_nth:
  assumes "pat \<noteq> []" and "occurs_at pat xs i"
  shows "xs ! i = hd pat"
proof -
  from assms have "i < length xs"
    using occurs_at_bound [of pat xs i] by (cases pat) auto
  then have "hd (take (length pat) (drop i xs)) = xs ! i"
    using assms(1) by (cases pat) (simp_all add: hd_drop_conv_nth)
  with assms(2) show ?thesis
    by (simp add: occurs_at_def)
qed

lemma indexOf_SOI_after_zeros:
  "indexOf (replicate n 0 @ SOI) SOI 0 = Some n"
proof -
  have "occurs_at SOI (replicate n 0 @ SOI) (length (replicate n (0::byte)) + 0)"
    unfolding occurs_at_append2 by (simp add: occurs_at_def)
  then have 1: "occurs_at SOI (replicate n 0 @ SOI) n" by simp
  have 2: "\<not> occurs_at SOI (replicate n 0 @ SOI) j" if "j < n" for j
  proof
    assume "occurs_at SOI (replicate n 0 @ SOI) j"
    then have "(replicate n 0 @ SOI) ! j = hd SOI"
      by (rule occurs_at_nth [OF SOI_ne])
    with that show False
      by (simp add: nth_append SOI_def)
  qed
  from 1 2 show ?thesis
    by (simp add: indexOf_Some_iff)
qed

lemma indexOf_at_end: "length buf \<le> k \<Longrightarrow> indexOf buf EOI k = None"
  by (simp add: indexOf_def EOI_def)

lemma feed_zeros_then_SOI:
  "feed f ([], s) (replicate n 0 @ SOI) = (replicate n 0 @ SOI, s)"
proof -
  have "indexOf (replicate n 0 @ SOI) EOI (n + 2) = None"
    by (rule indexOf_at_end) simp
  then show ?thesis
    by (simp add: feed_def parse_loop.simps [of f "replicate n 0 @ SOI"] indexOf_SOI_after_zeros)
qed

text \<open>
  Claim C4 as stated fails: after one feed of 1048577 zero bytes followed by a start
  marker, the window is not truncated, and the bytes it keeps before the start marker
  are more than the threshold of 1024 * 1024.
\<close>

theorem markerless_prefix_unbounded:
  "feed collect ([], []) (replicate 1048577 0 @ SOI) = (replicate 1048577 0 @ SOI, []) \<and>
   length (markerless_prefix (fst (feed collect ([], []) (replicate 1048577 0 @ SOI)))) =
     1048577 \<and>
   \<not> length (markerless_prefix (fst (feed collect ([], []) (replicate 1048577 0 @ SOI))))
       \<le> 1024 * 1024"
  by (simp add: feed_zeros_then_SOI markerless_prefix_def indexOf_SOI_after_zeros)

lemma length_keep_tail:
  "indexOf (keep_tail buf) SOI 0 = None \<Longrightarrow> length (keep_tail buf) \<le> 1024 * 1024"
  by (auto simp: keep_tail_def subarray_from_def)

lemma indexOf_SOI_zeros: "indexOf (replicate n 0) SOI 0 = None"
proof -
  have "\<not> occurs_at SOI (replicate n 0) j" for j
  proof
    assume o: "occurs_at SOI (replicate n 0) j"
    then have "j + length SOI \<le> length (replicate n (0 :: byte))"
      by (rule occurs_at_bound [OF SOI_ne])
    then have "j < n" by simp
    moreover from o have "replicate n 0 ! j = hd SOI"
      by (rule occurs_at_nth [OF SOI_ne])
    ultimately show False
      by (simp add: SOI_def)
  qed
  then show ?thesis
    by (simp add: indexOf_None_iff)
qed

lemma feed_no_start_marker:
  assumes "indexOf (fst st @ chunk) SOI 0 = None"
  shows "feed f st chunk =
     (if 1024 * 1024 < length (fst st @ chunk)
      then drop (length (fst st @ chunk) - 1024) (fst st @ chunk) else fst st @ chunk, snd st)"
  using assms by (simp add: feed_def parse_loop.simps [of f "fst st @ chunk"] subarray_from_def)

lemma feed_no_end_marker:
  assumes "indexOf (fst st @ chunk) SOI 0 = Some soi"
    and "indexOf (fst st @ chunk) EOI (soi + 2) = None"
  shows "feed f st chunk = (fst st @ chunk, snd st)"
  using assms by (simp add: feed_def parse_loop.simps [of f "fst st @ chunk"])

lemma longest_snoc: "longest (chunks @ [chunk]) = max (longest chunks) (length chunk)"
  by (induction chunks) auto

lemma length_snd_split_frames: "length (snd (split_frames x)) \<le> length x"
proof (induction x rule: split_frames.induct)
  case (1 buf)
  show ?case
  proof (cases "indexOf buf SOI 0")
    case None
    then show ?thesis by (simp add: split_frames.simps [of buf])
  next
    case (Some soi)
    note soi = this
    show ?thesis
    proof (cases "indexOf buf EOI (soi + 2)")
      case None
      with soi show ?thesis by (simp add: split_frames.simps [of buf])
    next
      case (Some eoi)
      from "1.IH"(1) [OF soi Some]
      have "length (snd (split_frames (subarray_from buf (eoi + 2)))) \<le> length buf"
        by (simp add: subarray_from_def)
      with soi Some show ?thesis
        by (simp add: split_frames.simps [of buf])
    qed
  qed
qed

lemma split_frames_first:
  assumes "indexOf x SOI 0 = Some soi" and "indexOf x EOI (soi + 2) = Some eoi"
  shows "length (snd (split_frames x)) \<le> length x - (eoi + 2)"
proof -
  have "snd (split_frames x) = snd (split_frames (subarray_from x (eoi + 2)))"
    using assms by (simp add: split_frames.simps [of x])
  moreover have "length (snd (split_frames (subarray_from x (eoi + 2)))) \<le>
      length (subarray_from x (eoi + 2))"
    by (rule length_snd_split_frames)
  ultimately show ?thesis
    by (simp add: subarray_from_def)
qed

lemma split_frames_rest:
  "indexOf (snd (split_frames buf)) SOI 0 = Some soi \<Longrightarrow>
   indexOf (snd (split_frames buf)) EOI (soi + 2) = None"
proof (induction buf rule: split_frames.induct)
  case (1 buf)
  show ?case
  proof (cases "indexOf buf SOI 0")
    case None
    with "1.prems" show ?thesis by (simp add: split_frames.simps [of buf])
  next
    case (Some s1)
    note s1 = this
    show ?thesis
    proof (cases "indexOf buf EOI (s1 + 2)")
      case None
      with s1 "1.prems" show ?thesis by (simp add: split_frames.simps [of buf])
    next
      case (Some e1)
      have eq: "snd (split_frames buf) = snd (split_frames (subarray_from buf (e1 + 2)))"
        using s1 Some by (simp add: split_frames.simps [of buf])
      from "1.IH"(1) [OF s1 Some] "1.prems" show ?thesis
        unfolding eq by simp
    qed
  qed
qed

lemma indexOf_drop_None:
  "indexOf buf SOI 0 = None \<Longrightarrow> indexOf (drop n buf) SOI 0 = None"
  by (simp add: indexOf_None_iff)

lemma keep_tail_with_marker:
  assumes "indexOf (keep_tail r) SOI 0 = Some soi"
  shows "keep_tail r = r"
proof (rule ccontr)
  assume "keep_tail r \<noteq> r"
  then have "indexOf r SOI 0 = None" and "keep_tail r = drop (length r - 1024) r"
    by (auto simp: keep_tail_def subarray_from_def split: if_splits)
  then have "indexOf (keep_tail r) SOI 0 = None"
    by (simp add: indexOf_drop_None)
  with assms show False by simp
qed

lemma window_ok_feed:
  assumes "window_ok m w"
  shows "window_ok (max m (length c)) (fst (feed f (w, s) c))"
proof -
  let ?b = "w @ c"
  let ?r = "snd (split_frames ?b)"
  let ?w' = "keep_tail ?r"
  have w': "fst (feed f (w, s) c) = ?w'"
    by (simp add: feed_def parse_loop_split)
  show ?thesis
  proof (cases "indexOf ?w' SOI 0")
    case None
    with length_keep_tail [of ?r] show ?thesis
      by (simp add: w' window_ok_def)
  next
    case (Some soi')
    then have kr: "?w' = ?r"
      by (rule keep_tail_with_marker)
    with Some have sr: "indexOf ?r SOI 0 = Some soi'"
      by simp
    then have noe: "indexOf ?r EOI (soi' + 2) = None"
      by (rule split_frames_rest)
    from sr have bound: "soi' + 2 \<le> length ?r"
      using indexOf_bound [of SOI ?r 0 soi'] by simp
    have "soi' \<le> 1024 * 1024 + max m (length c)"
    proof (cases "indexOf ?b SOI 0")
      case None
      then have "?r = ?b"
        by (simp add: split_frames.simps [of ?b])
      with sr None show ?thesis by simp
    next
      case (Some s1)
      note s1 = this
      show ?thesis
      proof (cases "indexOf ?b EOI (s1 + 2)")
        case None
        with s1 have rb: "?r = ?b"
          by (simp add: split_frames.simps [of ?b])
        with sr s1 have eq: "soi' = s1" by simp
        show ?thesis
        proof (cases "indexOf w SOI 0")
          case None
          with assms have "length w \<le> 1024 * 1024"
            by (simp add: window_ok_def)
          with bound rb show ?thesis by simp
        next
          case (Some s0)
          then have "indexOf ?b SOI 0 = Some s0"
            by (simp add: indexOf_append)
          with s1 eq have "soi' = s0" by simp
          with assms Some show ?thesis
            by (auto simp: window_ok_def)
        qed
      next
        case (Some e1)
        from split_frames_first [OF s1 Some]
        have len: "length ?r \<le> length ?b - (e1 + 2)" .
        from Some have e1: "s1 + 2 \<le> e1" "occurs_at EOI ?b e1"
          by (simp_all add: indexOf_Some_iff)
        from s1 have o1: "occurs_at SOI ?b s1"
          by (simp add: indexOf_Some_iff)
        have past: "length w < e1 + 2"
        proof (cases "indexOf w SOI 0")
          case None
          have "\<not> s1 + 2 \<le> length w"
          proof
            assume "s1 + 2 \<le> length w"
            then have "occurs_at SOI w s1"
              using o1 occurs_at_append1 [of s1 SOI w c] by simp
            with None show False
              by (simp add: indexOf_None_iff)
          qed
          with e1(1) show ?thesis by simp
        next
          case (Some s0)
          then have "indexOf ?b SOI 0 = Some s0"
            by (simp add: indexOf_append)
          with s1 have s0: "s0 = s1" by simp
          from assms Some have none: "indexOf w EOI (s0 + 2) = None"
            by (simp add: window_ok_def)
          have "\<not> e1 + 2 \<le> length w"
          proof
            assume "e1 + 2 \<le> length w"
            then have "occurs_at EOI w e1"
              using e1(2) occurs_at_append1 [of e1 EOI w c] by simp
            with none e1(1) s0 show False
              by (simp add: indexOf_None_iff)
          qed
          then show ?thesis by simp
        qed
        with len bound have "soi' \<le> length c"
          by simp
        then show ?thesis by simp
      qed
    qed
    with Some noe kr show ?thesis
      by (simp add: w' window_ok_def)
  qed
qed

lemma window_ok_foldl:
  "window_ok (longest chunks) (fst (foldl (feed f) ([], s) chunks))"
proof (induction chunks rule: rev_induct)
  case Nil
  have "indexOf [] SOI 0 = None"
    by (simp add: indexOf_def SOI_def)
  then show ?case
    by (simp add: window_ok_def)
next
  case (snoc c chunks)
  obtain w t where st: "foldl (feed f) ([], s) chunks = (w, t)"
    by (cases "foldl (feed f) ([], s) chunks")
  with snoc have "window_ok (longest chunks) w"
    by simp
  from window_ok_feed [OF this, of c f t] st show ?case
    by (simp add: longest_snoc)
qed

lemma markerless_prefix_window_ok:
  assumes "window_ok m w"
  shows "length (markerless_prefix w) \<le> 1024 * 1024 + m"
proof (cases "indexOf w SOI 0")
  case None
  with assms show ?thesis
    by (simp add: window_ok_def markerless_prefix_def)
next
  case (Some soi)
  with assms show ?thesis
    by (auto simp: window_ok_def markerless_prefix_def)
qed

lemma markerless_prefix_foldl:
  "length (markerless_prefix (fst (foldl (feed f) ([], s) chunks))) \<le>
     1024 * 1024 + longest chunks"
  using markerless_prefix_window_ok [OF window_ok_foldl] .

text \<open>
  Claim C4, amended. In every run from the empty window, after every feed the bytes of
  the window before its first start marker (all of it when it holds none) are at most
  1024 * 1024 and the length of the longest chunk fed so far. After every feed, from
  any window and for any chunk, a window that holds no start marker has at most
  1024 * 1024 bytes: when the bytes fed so far hold no start marker, the window is these
  bytes, cut to their last 1024 when they are more than 1024 * 1024. A window that holds
  a start marker with no end marker after it is kept whole, whatever its size.
\<close>

theorem markerless_window_bounded:
  "length (markerless_prefix (fst (foldl (feed f) ([], s) chunks))) \<le>
     1024 * 1024 + longest chunks \<and>
   (indexOf (fst (feed f st chunk)) SOI 0 = None \<longrightarrow>
      length (fst (feed f st chunk)) \<le> 1024 * 1024) \<and>
   (indexOf (fst st @ chunk) SOI 0 = None \<longrightarrow>
      feed f st chunk =
        (if 1024 * 1024 < length (fst st @ chunk)
         then drop (length (fst st @ chunk) - 1024) (fst st @ chunk) else fst st @ chunk,
         snd st)) \<and>
   (indexOf (fst st @ chunk) SOI 0 = Some soi \<and>
    indexOf (fst st @ chunk) EOI (soi + 2) = None \<longrightarrow>
      feed f st chunk = (fst st @ chunk, snd st))"
proof -
  have "length (fst (feed f st chunk)) \<le> 1024 * 1024"
    if "indexOf (fst (feed f st chunk)) SOI 0 = None"
    using that length_keep_tail [of "snd (split_frames (fst st @ chunk))"]
    by (simp add: feed_def parse_loop_split)
  then show ?thesis
    using feed_no_start_marker [of st chunk f] feed_no_end_marker [of st chunk soi f]
      markerless_prefix_foldl [of f s chunks]
    by blast
qed

theorem markerless_window_bounded_witness:
  "length (markerless_prefix
     (fst (foldl (feed collect) ([], []) [replicate 1048577 0 @ SOI, [1, 2, 3]]))) \<le>
     1024 * 1024 + 1048579 \<and>
   indexOf (replicate 1048577 0) SOI 0 = None \<and>
   feed collect ([], []) (replicate 1048577 0) = (replicate 1024 0, []) \<and>
   indexOf (fst (feed collect ([], []) (replicate 1048577 0))) SOI 0 = None \<and>
   length (fst (feed collect ([], []) (replicate 1048577 0))) \<le> 1024 * 1024 \<and>
   indexOf [0, 0xFF, 0xD8, 1] SOI 0 = Some 1 \<and>
   indexOf [0, 0xFF, 0xD8, 1] EOI (1 + 2) = None \<and>
   feed collect ([], []) [0, 0xFF, 0xD8, 1] = ([0, 0xFF, 0xD8, 1], [])"
proof -
  note a = markerless_window_bounded [where f = collect and st = "([], [])"
      and chunk = "replicate 1048577 0" and soi = 0 and s = "[]"
      and chunks = "[replicate 1048577 0 @ SOI, [1, 2, 3]]"]
  note b = markerless_window_bounded [where f = collect and st = "([], [])"
      and chunk = "[0, 0xFF, 0xD8, 1]" and soi = 1 and s = "[]" and chunks = "[]"]
  from a have p: "length (markerless_prefix
     (fst (foldl (feed collect) ([], []) [replicate 1048577 0 @ SOI, [1, 2, 3]]))) \<le>
     1024 * 1024 + longest [replicate 1048577 0 @ SOI, [1, 2, 3]]"
    by blast
  have "longest [replicate 1048577 0 @ SOI, [1, 2, 3]] = 1048579"
    by simp
  with p have p': "length (markerless_prefix
     (fst (foldl (feed collect) ([], []) [replicate 1048577 0 @ SOI, [1, 2, 3]]))) \<le>
     1024 * 1024 + 1048579"
    by (simp only:)
  have z: "indexOf (replicate 1048577 0) SOI 0 = None"
    by (rule indexOf_SOI_zeros)
  from a z have f: "feed collect ([], []) (replicate 1048577 0) = (replicate 1024 0, [])"
    by simp
  have z': "indexOf (fst (feed collect ([], []) (replicate 1048577 0))) SOI 0 = None"
    unfolding f by (simp add: indexOf_SOI_zeros)
  from a z' have l: "length (fst (feed collect ([], []) (replicate 1048577 0))) \<le> 1024 * 1024"
    by blast
  have s: "indexOf [0, 0xFF, 0xD8, 1] SOI 0 = Some 1"
    and e: "indexOf [0, 0xFF, 0xD8, 1] EOI (1 + 2) = None"
    by (simp_all add: indexOf_def SOI_def EOI_def)
  from b s e have k: "feed collect ([], []) [0, 0xFF, 0xD8, 1] = ([0, 0xFF, 0xD8, 1], [])"
    by simp
  from p' z f z' l s e k show ?thesis
    by (intro conjI)
qed

section \<open>Properties of the pipeline\<close>

subsection \<open>The inference gate\<close>

lemma one_in_flight_init: "one_in_flight init"
  by (simp add: one_in_flight_def init_def)

lemma busy_forward [simp]: "busy (forward st f) = busy st"
  and awaiting_forward [simp]: "awaiting (forward st f) = awaiting st"
  and console_forward [simp]: "console (forward st f) = console st"
  and lastLog_forward [simp]: "lastLog (forward st f) = lastLog st"
  and killed_forward [simp]: "killed (forward st f) = killed st"
  and decoded_forward [simp]: "decoded_frames (forward st f) = decoded_frames st"
  and offered_forward [simp]: "offered (forward st f) = offered st"
  by (simp_all add: forward_def)

lemma on_frame_busy:
  "busy st \<Longrightarrow> on_frame e st f = Normal ((forward st f)\<lparr>offered := offered st @ [f]\<rparr>)"
  by (simp add: on_frame_def Let_def)

lemma on_frame_idle:
  "\<not> busy st \<Longrightarrow>
   on_frame e st f =
     catch_finally (try_block e ((forward st f)\<lparr>offered := offered st @ [f], busy := True\<rparr>) f)"
  by (simp add: on_frame_def Let_def)

lemma one_in_flight_on_frame:
  assumes "one_in_flight st"
  shows "one_in_flight (state_of (on_frame e st f))"
proof (cases "busy st")
  case True
  with assms show ?thesis
    by (simp add: on_frame_busy one_in_flight_def)
next
  case False
  with assms have "awaiting st = []"
    by (simp add: one_in_flight_def)
  with False show ?thesis
    by (simp add: on_frame_idle try_block_def Let_def one_in_flight_def
        split: decoded.split option.split)
qed

lemma one_in_flight_resume:
  assumes "one_in_flight st"
  shows "one_in_flight (resume st now)"
proof (cases "awaiting st")
  case Nil
  with assms show ?thesis by (simp add: resume_def)
next
  case (Cons probs rest)
  with assms have "rest = []"
    by (simp add: one_in_flight_def)
  with Cons show ?thesis
    by (simp add: resume_def after_await_def one_in_flight_def split: list.split)
qed

lemma one_in_flight_reject:
  assumes "one_in_flight st"
  shows "one_in_flight (reject st)"
proof (cases "awaiting st")
  case Nil
  with assms show ?thesis by (simp add: reject_def)
next
  case (Cons probs rest)
  with assms have "rest = []"
    by (simp add: one_in_flight_def)
  with Cons show ?thesis
    by (simp add: reject_def one_in_flight_def)
qed

lemma one_in_flight_foldl:
  "one_in_flight st \<Longrightarrow> one_in_flight (foldl (callback e) st fs)"
  by (induction fs arbitrary: st) (simp_all add: one_in_flight_on_frame)

lemma one_in_flight_step:
  assumes "one_in_flight (snd s)"
  shows "one_in_flight (snd (step e s ev))"
proof (cases s)
  case (Pair buf st)
  with assms show ?thesis
    by (cases ev)
      (simp_all add: feed_def parse_loop_split one_in_flight_foldl one_in_flight_resume
        one_in_flight_reject,
        simp add: one_in_flight_def)
qed

lemma one_in_flight_run: "one_in_flight (snd (run e events))"
  unfolding run_def
  by (induction events rule: rev_induct) (simp_all add: one_in_flight_init one_in_flight_step)

text \<open>
  Claim C1. A call of the callback is in flight from \<^verbatim>\<open>busy = true\<close> to
  \<^verbatim>\<open>busy = false\<close>; between two jobs of the event loop the calls in flight are the
  suspended ones. In every run at most one call is suspended, and \<open>busy\<close> is true
  exactly when one is; every call of the callback and every resumption, with a value or
  with a rejection, keeps it so. A
  frame that finds \<open>busy\<close> true is dropped: the call ends normally, nothing is decoded and
  no call is added. A frame that finds it false is decoded in a state where \<open>busy\<close> is
  already true.
\<close>

theorem inference_gate_exclusive:
  "one_in_flight (snd (run e events)) \<and>
   (one_in_flight st \<longrightarrow>
      one_in_flight (callback e st f) \<and> one_in_flight (resume st now) \<and>
      one_in_flight (reject st)) \<and>
   (busy st \<longrightarrow>
      on_frame e st f = Normal ((forward st f)\<lparr>offered := offered st @ [f]\<rparr>) \<and>
      busy (callback e st f) \<and>
      awaiting (callback e st f) = awaiting st \<and>
      decoded_frames (callback e st f) = decoded_frames st) \<and>
   (\<not> busy st \<longrightarrow>
      on_frame e st f =
        catch_finally
          (try_block e ((forward st f)\<lparr>offered := offered st @ [f], busy := True\<rparr>) f))"
  by (simp add: one_in_flight_run one_in_flight_on_frame one_in_flight_resume
      one_in_flight_reject on_frame_busy on_frame_idle)

theorem inference_gate_exclusive_witness:
  "one_in_flight
     (snd (run demo_env [Data [0xFF, 0xD8, 0, 0xFF, 0xD9], Data [0xFF, 0xD8, 0, 0xFF, 0xD9]])) \<and>
   \<not> busy init \<and> one_in_flight init \<and>
   one_in_flight (callback demo_env init [0xFF, 0xD8, 0, 0xFF, 0xD9]) \<and>
   busy (callback demo_env init [0xFF, 0xD8, 0, 0xFF, 0xD9]) \<and>
   awaiting (callback demo_env init [0xFF, 0xD8, 0, 0xFF, 0xD9]) = [[1 / 10, 7 / 10, 2 / 10]] \<and>
   on_frame demo_env (callback demo_env init [0xFF, 0xD8, 0, 0xFF, 0xD9]) [1, 2, 3, 4, 5] =
     Normal ((forward (callback demo_env init [0xFF, 0xD8, 0, 0xFF, 0xD9]) [1, 2, 3, 4, 5])
       \<lparr>offered := [[0xFF, 0xD8, 0, 0xFF, 0xD9], [1, 2, 3, 4, 5]]\<rparr>) \<and>
   decoded_frames
     (callback demo_env (callback demo_env init [0xFF, 0xD8, 0, 0xFF, 0xD9]) [1, 2, 3, 4, 5]) =
     [[0xFF, 0xD8, 0, 0xFF, 0xD9]]"
  using inference_gate_exclusive [of demo_env
      "[Data [0xFF, 0xD8, 0, 0xFF, 0xD9], Data [0xFF, 0xD8, 0, 0xFF, 0xD9]]" init
      "[0xFF, 0xD8, 0, 0xFF, 0xD9]" 0]
    inference_gate_exclusive [of demo_env "[]" "callback demo_env init [0xFF, 0xD8, 0, 0xFF, 0xD9]"
      "[1, 2, 3, 4, 5]" 0]
  by (simp add: one_in_flight_def init_def on_frame_def try_block_def forward_def demo_env_def
      Let_def reject_def)

subsection \<open>The exits of the inference call\<close>

lemma on_frame_not_Throw: "on_frame e st f \<noteq> Throw st'"
  by (simp add: on_frame_def try_block_def Let_def split: decoded.split option.split)

lemma busy_resume: "awaiting st \<noteq> [] \<Longrightarrow> \<not> busy (resume st now)"
  by (cases "awaiting st")
    (simp_all add: resume_def after_await_def split: list.split)

lemma busy_reject: "awaiting st \<noteq> [] \<Longrightarrow> \<not> busy (reject st)"
  by (cases "awaiting st") (simp_all add: reject_def)

lemma on_frame_exits:
  assumes "\<not> busy st"
  shows "case on_frame e st f of
           Normal st' \<Rightarrow> \<not> busy st' \<and> awaiting st' = awaiting st
         | Throw st' \<Rightarrow> False
         | Await st' \<Rightarrow>
             busy st' \<and> awaiting st' \<noteq> [] \<and> \<not> busy (resume st' now) \<and>
             \<not> busy (reject st')"
proof (cases "decode e f")
  case DecodeThrows
  with assms show ?thesis
    by (simp add: on_frame_idle try_block_def Let_def)
next
  case DecodeNothing
  with assms show ?thesis
    by (simp add: on_frame_idle try_block_def Let_def)
next
  case (Decoded w h rgba)
  show ?thesis
  proof (cases "predict e (normalize e (tensor3d e (to_rgb rgba) [HEIGHT, WIDTH, 3]))")
    case None
    with assms Decoded show ?thesis
      by (simp add: on_frame_idle try_block_def Let_def)
  next
    case (Some out)
    with assms Decoded show ?thesis
      by (simp add: on_frame_idle try_block_def Let_def busy_resume busy_reject)
  qed
qed

lemma on_frame_decode_fails:
  assumes "\<not> busy st" and "decode e f = DecodeThrows \<or> decode e f = DecodeNothing"
  shows "on_frame e st f = Normal (callback e st f) \<and>
         \<not> busy (callback e st f) \<and>
         console (callback e st f) = console st \<and>
         lastLog (callback e st f) = lastLog st \<and>
         awaiting (callback e st f) = awaiting st \<and>
         decoded_frames (callback e st f) = decoded_frames st @ [f]"
  using assms by (auto simp: on_frame_idle try_block_def Let_def)

text \<open>
  Claim C5. The callback never ends by an exception. A frame that finds \<open>busy\<close> false
  enters the \<^verbatim>\<open>try\<close> block in a state where \<open>busy\<close> is true, and whichever way the
  call ends, \<open>busy\<close> is false afterwards: at once when the call ends without reaching
  the \<^verbatim>\<open>await\<close>, and after the resumption when it was suspended, whether the
  promise gave its value or was rejected. When
  \<^verbatim>\<open>jpeg.decode\<close> throws or returns nothing, the call ends normally with \<open>busy\<close>
  false, no line printed, \<open>lastLog\<close> unchanged and no call suspended: the frame was
  passed to the decoder and nothing else was done with it.
\<close>

theorem admission_reset_on_every_exit:
  "(\<forall>st'. on_frame e st f \<noteq> Throw st') \<and>
   (\<not> busy st \<longrightarrow>
      on_frame e st f =
        catch_finally
          (try_block e ((forward st f)\<lparr>offered := offered st @ [f], busy := True\<rparr>) f) \<and>
      (case on_frame e st f of
         Normal st' \<Rightarrow> \<not> busy st' \<and> awaiting st' = awaiting st
       | Throw st' \<Rightarrow> False
       | Await st' \<Rightarrow>
           busy st' \<and> awaiting st' \<noteq> [] \<and> \<not> busy (resume st' now) \<and>
           \<not> busy (reject st'))) \<and>
   (\<not> busy st \<and> (decode e f = DecodeThrows \<or> decode e f = DecodeNothing) \<longrightarrow>
      on_frame e st f = Normal (callback e st f) \<and>
      \<not> busy (callback e st f) \<and>
      console (callback e st f) = console st \<and>
      lastLog (callback e st f) = lastLog st \<and>
      awaiting (callback e st f) = awaiting st \<and>
      decoded_frames (callback e st f) = decoded_frames st @ [f])"
  using on_frame_not_Throw [of e st f] on_frame_idle [of st e f] on_frame_exits [where st = st and e = e and f = f and now = now]
    on_frame_decode_fails [of st e f]
  by blast

theorem admission_reset_on_every_exit_witness:
  "\<not> busy init \<and> decode demo_env [0xFF, 0xD8, 0xFF, 0xD9] = DecodeThrows \<and>
   on_frame demo_env init [0xFF, 0xD8, 0xFF, 0xD9] =
     Normal (callback demo_env init [0xFF, 0xD8, 0xFF, 0xD9]) \<and>
   \<not> busy (callback demo_env init [0xFF, 0xD8, 0xFF, 0xD9]) \<and>
   console (callback demo_env init [0xFF, 0xD8, 0xFF, 0xD9]) = [] \<and>
   awaiting (callback demo_env init [0xFF, 0xD8, 0xFF, 0xD9]) = [] \<and>
   decoded_frames (callback demo_env init [0xFF, 0xD8, 0xFF, 0xD9]) = [[0xFF, 0xD8, 0xFF, 0xD9]] \<and>
   busy (callback demo_env init [0xFF, 0xD8, 0, 0xFF, 0xD9]) \<and>
   \<not> busy (resume (callback demo_env init [0xFF, 0xD8, 0, 0xFF, 0xD9]) 1000) \<and>
   \<not> busy (reject (callback demo_env init [0xFF, 0xD8, 0, 0xFF, 0xD9]))"
  using admission_reset_on_every_exit [of demo_env init "[0xFF, 0xD8, 0xFF, 0xD9]" 1000]
    admission_reset_on_every_exit [of demo_env init "[0xFF, 0xD8, 0, 0xFF, 0xD9]" 1000]
  by (simp add: init_def on_frame_def try_block_def forward_def demo_env_def Let_def)

subsection \<open>The order of the frames\<close>

lemma fanned_out_init: "fanned_out init []"
  by (simp add: fanned_out_def init_def)

lemma fanned_out_callback:
  assumes "fanned_out st emitted"
  shows "fanned_out (callback e st f) (emitted @ [f])"
proof (cases "busy st")
  case True
  with assms show ?thesis
    by (auto simp: fanned_out_def on_frame_busy forward_def)
next
  case False
  from assms have "subseq (decoded_frames st @ [f]) (emitted @ [f])"
    by (simp add: fanned_out_def)
  with False assms show ?thesis
    by (auto simp: fanned_out_def on_frame_idle try_block_def Let_def forward_def
        split: decoded.split option.split)
qed

lemma fanned_out_foldl:
  "fanned_out st emitted \<Longrightarrow> fanned_out (foldl (callback e) st fs) (emitted @ fs)"
proof (induction fs arbitrary: st emitted)
  case Nil
  then show ?case by simp
next
  case (Cons f fs)
  from Cons.IH [OF fanned_out_callback [OF Cons.prems, of e f]] show ?case by simp
qed

lemma fanned_out_resume: "fanned_out st emitted \<Longrightarrow> fanned_out (resume st now) emitted"
  by (cases "awaiting st")
    (auto simp: fanned_out_def resume_def after_await_def split: list.split)

lemma fanned_out_reject: "fanned_out st emitted \<Longrightarrow> fanned_out (reject st) emitted"
  by (cases "awaiting st") (auto simp: fanned_out_def reject_def)

lemma chunks_of_snoc:
  "chunks_of (events @ [ev]) = chunks_of events @ (case ev of Data chunk \<Rightarrow> [chunk] | _ \<Rightarrow> [])"
  by (induction events rule: chunks_of.induct) (auto split: event.split)

lemma run_fanned_out:
  "fst (run e events) = fst (foldl (feed collect) ([], []) (chunks_of events)) \<and>
   fanned_out (snd (run e events)) (snd (foldl (feed collect) ([], []) (chunks_of events)))"
proof (induction events rule: rev_induct)
  case Nil
  show ?case by (simp add: run_def fanned_out_init)
next
  case (snoc ev events)
  let ?r = "run e events"
  let ?c = "foldl (feed collect) ([], []) (chunks_of events)"
  from snoc have w: "fst ?r = fst ?c" and f: "fanned_out (snd ?r) (snd ?c)"
    by simp_all
  obtain buf st where rs: "?r = (buf, st)"
    by (cases ?r)
  have r: "run e (events @ [ev]) = step e (buf, st) ev"
    using rs by (simp add: run_def)
  show ?case
  proof (cases ev)
    case (Data chunk)
    let ?fs = "fst (split_frames (fst ?r @ chunk))"
    have 1: "run e (events @ [ev]) =
        (keep_tail (snd (split_frames (fst ?r @ chunk))), foldl (callback e) (snd ?r) ?fs)"
      using Data r rs by (simp add: feed_def parse_loop_split)
    have 2: "foldl (feed collect) ([], []) (chunks_of (events @ [ev])) =
        (keep_tail (snd (split_frames (fst ?r @ chunk))), snd ?c @ ?fs)"
      using Data w by (simp add: chunks_of_snoc feed_def parse_loop_split foldl_collect)
    from fanned_out_foldl [OF f, of e ?fs] show ?thesis
      by (simp add: 1 2)
  next
    case (Resolved now)
    with r rs w fanned_out_resume [OF f, of now] show ?thesis
      by (simp add: chunks_of_snoc)
  next
    case Rejected
    with r rs w fanned_out_reject [OF f] show ?thesis
      by (simp add: chunks_of_snoc)
  next
    case PlayerExit
    with r rs w f show ?thesis
      by (simp add: chunks_of_snoc fanned_out_def)
  qed
qed

lemma in_stream_order_split_frames: "in_stream_order (fst (split_frames buf)) buf"
proof (induction buf rule: split_frames.induct)
  case (1 buf)
  show ?case
  proof (cases "indexOf buf SOI 0")
    case None
    then show ?thesis by (simp add: split_frames.simps [of buf])
  next
    case (Some soi)
    note soi = this
    show ?thesis
    proof (cases "indexOf buf EOI (soi + 2)")
      case None
      with soi show ?thesis by (simp add: split_frames.simps [of buf])
    next
      case (Some eoi)
      let ?f = "subarray buf soi (eoi + 2)"
      let ?r = "subarray_from buf (eoi + 2)"
      from Some have le: "soi + 2 \<le> eoi" and b: "eoi + 2 \<le> length buf"
        using indexOf_bound [of EOI buf "soi + 2" eoi] by (simp_all add: indexOf_Some_iff)
      then have len: "length ?f = eoi + 2 - soi"
        by (simp add: subarray_def)
      have sp: "fst (split_frames buf) = ?f # fst (split_frames ?r)"
        using soi Some by (simp add: split_frames.simps [of buf])
      have "take (length ?f) (drop soi buf) = ?f"
        using len by (simp add: subarray_def)
      moreover have "drop (soi + length ?f) buf = ?r"
        using len le by (simp add: subarray_from_def)
      moreover have "soi \<le> length buf" using le b by simp
      moreover note "1.IH"(1) [OF soi Some]
      ultimately show ?thesis
        unfolding sp in_stream_order.simps by (intro bexI [of _ soi]) simp_all
    qed
  qed
qed

text \<open>
  Claim C6. In every run, the frames the parser emits chunk by chunk stand in the byte
  stream in the order of their emission; the frames written to the player are exactly
  the emitted frames in this order; the frames that reach the test of \<open>busy\<close> are exactly
  the emitted frames in this order; and the frames that pass it and go to the decoder are
  a subsequence of them.
\<close>

theorem frames_fan_out_in_order:
  "in_stream_order (snd (foldl (feed collect) ([], []) (chunks_of events)))
     (concat (chunks_of events)) \<and>
   written (snd (run e events)) = snd (foldl (feed collect) ([], []) (chunks_of events)) \<and>
   offered (snd (run e events)) = snd (foldl (feed collect) ([], []) (chunks_of events)) \<and>
   subseq (decoded_frames (snd (run e events))) (offered (snd (run e events)))"
proof -
  have "snd (foldl (feed collect) ([], []) (chunks_of events)) =
      fst (split_frames (concat (chunks_of events)))"
    by (simp add: foldl_feed foldl_collect)
  then have "in_stream_order (snd (foldl (feed collect) ([], []) (chunks_of events)))
     (concat (chunks_of events))"
    by (simp add: in_stream_order_split_frames)
  with run_fanned_out [of e events] show ?thesis
    by (simp add: fanned_out_def)
qed

text \<open>A run of three frames in three chunks that do not end where the frames end.\<close>

lemma demo_run:
  "run demo_env
     [Data [0xFF, 0xD8, 0, 0xFF], Data [0xD9, 0xFF, 0xD8, 0xFF, 0xD9, 0xFF], Resolved 1000,
      Data [0xD8, 1, 0xFF, 0xD9]] =
   ([], \<lparr>busy = True, lastLog = 1000, killed = False, sink_closed = False,
      written = [[0xFF, 0xD8, 0, 0xFF, 0xD9], [0xFF, 0xD8, 0xFF, 0xD9], [0xFF, 0xD8, 1, 0xFF, 0xD9]],
      write_errors = 0,
      offered = [[0xFF, 0xD8, 0, 0xFF, 0xD9], [0xFF, 0xD8, 0xFF, 0xD9], [0xFF, 0xD8, 1, 0xFF, 0xD9]],
      decoded_frames = [[0xFF, 0xD8, 0, 0xFF, 0xD9], [0xFF, 0xD8, 1, 0xFF, 0xD9]],
      awaiting = [[1 / 10, 7 / 10, 2 / 10]],
      console = [Report \<lparr>stamp = 1000, best = \<lparr>label = ''STRONG'', p = 7 / 10\<rparr>,
                   second = Some \<lparr>label = ''STOP'', p = 2 / 10\<rparr>\<rparr>]\<rparr>)"
  by (simp add: run_def feed_def parse_loop.simps indexOf_def SOI_def EOI_def subarray_def
      subarray_from_def init_def on_frame_def try_block_def forward_def demo_env_def Let_def
      resume_def after_await_def topK_def entries_def LABELS_def)

theorem frames_fan_out_in_order_witness:
  "written (snd (run demo_env
     [Data [0xFF, 0xD8, 0, 0xFF], Data [0xD9, 0xFF, 0xD8, 0xFF, 0xD9, 0xFF], Resolved 1000,
      Data [0xD8, 1, 0xFF, 0xD9]])) =
     [[0xFF, 0xD8, 0, 0xFF, 0xD9], [0xFF, 0xD8, 0xFF, 0xD9], [0xFF, 0xD8, 1, 0xFF, 0xD9]] \<and>
   snd (foldl (feed collect) ([], [])
     [[0xFF, 0xD8, 0, 0xFF], [0xD9, 0xFF, 0xD8, 0xFF, 0xD9, 0xFF], [0xD8, 1, 0xFF, 0xD9]]) =
     [[0xFF, 0xD8, 0, 0xFF, 0xD9], [0xFF, 0xD8, 0xFF, 0xD9], [0xFF, 0xD8, 1, 0xFF, 0xD9]] \<and>
   subseq [[0xFF, 0xD8, 0, 0xFF, 0xD9], [0xFF, 0xD8, 1, 0xFF, 0xD9]]
     [[0xFF, 0xD8, 0, 0xFF, 0xD9], [0xFF, 0xD8, 0xFF, 0xD9], [0xFF, 0xD8, 1, 0xFF, 0xD9]]"
  using frames_fan_out_in_order [of
      "[Data [0xFF, 0xD8, 0, 0xFF], Data [0xD9, 0xFF, 0xD8, 0xFF, 0xD9, 0xFF], Resolved 1000,
        Data [0xD8, 1, 0xFF, 0xD9]]" demo_env]
  by (simp add: demo_run)

subsection \<open>Writes to the preview player\<close>

lemma events_of_snoc:
  "events_of (occs @ [occ]) = events_of occs @ (case occ of Event ev \<Rightarrow> [ev] | StdinError \<Rightarrow> [])"
  by (induction occs rule: events_of.induct) (auto split: occurrence.split)

text \<open>
  While the process has not exited, its state is the state of the run of its events;
  once it has exited, its state is that of the events up to the exit. What holds after
  every run of the pipeline therefore holds of the process at every moment.
\<close>

lemma process_run_alive_and_prefix:
  "(\<not> fst (process_run e occs) \<longrightarrow> snd (process_run e occs) = run e (events_of occs)) \<and>
   (\<exists>n. snd (process_run e occs) = run e (take n (events_of occs)))"
proof (induction occs rule: rev_induct)
  case Nil
  show ?case by (simp add: process_run_def run_def)
next
  case (snoc occ occs)
  obtain x s where ps: "process_run e occs = (x, s)"
    by (cases "process_run e occs")
  have r: "process_run e (occs @ [occ]) = process_step e (x, s) occ"
    using ps by (simp add: process_run_def)
  from snoc ps obtain n where n: "s = run e (take n (events_of occs))"
    by auto
  show ?case
  proof (cases x)
    case True
    have "take (min n (length (events_of occs))) (events_of (occs @ [occ])) =
        take n (events_of occs)"
      by (simp add: events_of_snoc min_def)
    with n have "s = run e (take (min n (length (events_of occs))) (events_of (occs @ [occ])))"
      by simp
    with True r show ?thesis
      by (cases occ) auto
  next
    case False
    with snoc ps have s: "s = run e (events_of occs)"
      by simp
    show ?thesis
    proof (cases occ)
      case (Event ev)
      have "step e s ev = run e (events_of (occs @ [occ]))"
        using s Event by (simp add: events_of_snoc run_def)
      moreover have "take (length (events_of (occs @ [occ]))) (events_of (occs @ [occ])) =
          events_of (occs @ [occ])"
        by simp
      ultimately show ?thesis
        using False r Event by (metis fst_conv process_step.simps(1) snd_conv)
    next
      case StdinError
      have "s = run e (events_of (occs @ [occ]))"
        using s StdinError by (simp add: events_of_snoc)
      moreover have "take (length (events_of (occs @ [occ]))) (events_of (occs @ [occ])) =
          events_of (occs @ [occ])"
        by simp
      ultimately show ?thesis
        using False r StdinError by (metis process_step.simps(2) snd_conv)
    qed
  qed
qed


subsection \<open>The input of the classifier\<close>

lemma length_store [simp]: "length (store a j v) = length a"
  by (simp add: store_def)

lemma nth_store: "k < length a \<Longrightarrow> store a j v ! k = (if k = j then v else a ! k)"
  by (simp add: store_def)

lemma length_rgb_loop [simp]: "length (rgb_loop rgba i j rgb) = length rgb"
proof (induction rgba i j rgb rule: rgb_loop.induct)
  case (1 rgba i j rgb)
  then show ?case
    by (cases "i < length rgba") (simp_all add: rgb_loop.simps [of rgba i j rgb])
qed

lemma nth_rgb_loop:
  "k < length rgb \<Longrightarrow>
   rgb_loop rgba i j rgb ! k =
     (if j \<le> k \<and> i + 4 * ((k - j) div 3) < length rgba
      then load rgba (i + 4 * ((k - j) div 3) + (k - j) mod 3)
      else rgb ! k)"
proof (induction rgba i j rgb rule: rgb_loop.induct)
  case (1 rgba i j rgb)
  show ?case
  proof (cases "i < length rgba")
    case False
    then show ?thesis
      by (simp add: rgb_loop.simps [of rgba i j rgb])
  next
    case True
    let ?rgb' = "store (store (store rgb j (load rgba i)) (j + 1) (load rgba (i + 1)))
                   (j + 2) (load rgba (i + 2))"
    have unfold: "rgb_loop rgba i j rgb = rgb_loop rgba (i + 4) (j + 3) ?rgb'"
      using True by (simp add: rgb_loop.simps [of rgba i j rgb])
    have k': "k < length ?rgb'"
      using "1.prems" by simp
    note IH = "1.IH" [OF True k']
    have old: "?rgb' ! k =
        (if k = j + 2 then load rgba (i + 2)
         else if k = j + 1 then load rgba (i + 1)
         else if k = j then load rgba i else rgb ! k)"
      using "1.prems" by (simp add: nth_store)
    show ?thesis
    proof (cases "j + 3 \<le> k")
      case far: True
      then obtain d where d: "k = j + 3 + d"
        using le_Suc_ex by blast
      have dv: "(k - j) div 3 = Suc (d div 3)" and md: "(k - j) mod 3 = d mod 3"
        using d by (simp_all add: add.commute)
      have dv': "(k - (j + 3)) div 3 = d div 3" and md': "(k - (j + 3)) mod 3 = d mod 3"
        using d by simp_all
      from far have "?rgb' ! k = rgb ! k"
        using old by simp
      with IH far show ?thesis
        unfolding unfold dv md dv' md' by (simp add: algebra_simps)
    next
      case near: False
      show ?thesis
      proof (cases "j \<le> k")
        case False
        with near IH old show ?thesis
          unfolding unfold by simp
      next
        case True
        with near have "k = j \<or> k = j + 1 \<or> k = j + 2"
          by arith
        with near IH old \<open>i < length rgba\<close> show ?thesis
          unfolding unfold by auto
      qed
    qed
  qed
qed

lemma length_to_rgb: "length (to_rgb rgba) = 224 * 224 * 3"
  by (simp add: to_rgb_def WIDTH_def HEIGHT_def)

lemma nth_to_rgb:
  assumes "k < 224 * 224 * 3"
  shows "to_rgb rgba ! k =
     (if 4 * (k div 3) < length rgba then load rgba (4 * (k div 3) + k mod 3) else 0)"
proof -
  have "k < length (replicate (WIDTH * HEIGHT * 3) (0 :: byte))"
    using assms by (simp add: WIDTH_def HEIGHT_def)
  from nth_rgb_loop [OF this, of rgba 0 0] assms show ?thesis
    by (simp add: to_rgb_def WIDTH_def HEIGHT_def)
qed

lemma try_block_Decoded:
  assumes "decode e f = Decoded w h rgba"
  shows "try_block e st f =
     (case predict e (normalize e (tensor3d e (to_rgb rgba) [224, 224, 3])) of
        None \<Rightarrow> Throw (st\<lparr>decoded_frames := decoded_frames st @ [f]\<rparr>)
      | Some out \<Rightarrow>
          Await (st\<lparr>decoded_frames := decoded_frames st @ [f],
                    awaiting := awaiting st @ [tensor_data e (softmax e out)]\<rparr>))"
  using assms by (simp add: try_block_def Let_def WIDTH_def HEIGHT_def split: option.split)

lemma load_take: "i < n \<Longrightarrow> load (take n a) i = load a i"
  by (simp add: load_def)

lemma pixel_index_bound:
  assumes "k < 3 * n"
  shows "4 * (k div 3) + k mod 3 < 4 * (n :: nat)"
proof -
  from assms have "k div 3 < n"
    by (simp add: less_mult_imp_div_less mult.commute)
  then have "4 * (k div 3) + 4 \<le> 4 * n"
    by simp
  moreover have "k mod 3 < 3"
    by simp
  ultimately show ?thesis
    by linarith
qed


lemma to_rgb_take: "to_rgb (take (224 * 224 * 4) rgba) = to_rgb rgba"
proof (rule nth_equalityI)
  show "length (to_rgb (take (224 * 224 * 4) rgba)) = length (to_rgb rgba)"
    by (simp only: length_to_rgb)
next
  fix k
  assume "k < length (to_rgb (take (224 * 224 * 4) rgba))"
  then have k: "k < 224 * 224 * 3"
    by (simp only: length_to_rgb)
  then have "k < 3 * 50176"
    by simp
  then have "4 * (k div 3) + k mod 3 < 4 * 50176"
    by (rule pixel_index_bound)
  then have i: "4 * (k div 3) + k mod 3 < 224 * 224 * 4"
    by simp
  then have i': "4 * (k div 3) < 224 * 224 * 4"
    by linarith
  have c: "4 * (k div 3) < length (take (224 * 224 * 4) rgba) \<longleftrightarrow> 4 * (k div 3) < length rgba"
    using i' by (simp only: length_take min_less_iff_conj) simp
  show "to_rgb (take (224 * 224 * 4) rgba) ! k = to_rgb rgba ! k"
    by (simp only: nth_to_rgb [OF k] c load_take [OF i])
qed

text \<open>
  Claim C10. The array built from the decoded pixels always has 224 * 224 * 3 bytes,
  whatever the decoded image: byte \<open>k\<close> is the channel \<open>k mod 3\<close> of pixel \<open>k div 3\<close>
  when the data holds this pixel, and zero otherwise, and the data from byte
  224 * 224 * 4 on has no effect. The width and the height that the decoder returns are
  not looked at: once the frame has decoded, the tensor of shape 224, 224, 3 made from
  this array is given to the classifier, and the call fails only when the classifier
  throws.
\<close>

theorem input_built_without_size_check:
  "length (to_rgb rgba) = 224 * 224 * 3 \<and>
   to_rgb (take (224 * 224 * 4) rgba) = to_rgb rgba \<and>
   (\<forall>k < 224 * 224 * 3.
      to_rgb rgba ! k =
        (if 4 * (k div 3) < length rgba then load rgba (4 * (k div 3) + k mod 3) else 0)) \<and>
   (decode e f = Decoded w h rgba \<longrightarrow>
      try_block e st f =
        (case predict e (normalize e (tensor3d e (to_rgb rgba) [224, 224, 3])) of
           None \<Rightarrow> Throw (st\<lparr>decoded_frames := decoded_frames st @ [f]\<rparr>)
         | Some out \<Rightarrow>
             Await (st\<lparr>decoded_frames := decoded_frames st @ [f],
                       awaiting := awaiting st @ [tensor_data e (softmax e out)]\<rparr>)))"
  using length_to_rgb [of rgba] nth_to_rgb [of _ rgba] to_rgb_take [of rgba]
    try_block_Decoded [of e f w h rgba st]
  by blast

theorem input_built_without_size_check_witness:
  "decode demo_env [0xFF, 0xD8, 0, 0xFF, 0xD9] = Decoded 1 1 [10, 20, 30, 255] \<and>
   length (to_rgb [10, 20, 30, 255]) = 224 * 224 * 3 \<and>
   to_rgb [10, 20, 30, 255] ! 0 = 10 \<and>
   to_rgb [10, 20, 30, 255] ! 1 = 20 \<and>
   to_rgb [10, 20, 30, 255] ! 2 = 30 \<and>
   to_rgb [10, 20, 30, 255] ! 3 = 0 \<and>
   to_rgb [10, 20, 30, 255] ! 150527 = 0 \<and>
   try_block demo_env init [0xFF, 0xD8, 0, 0xFF, 0xD9] =
     Await (init\<lparr>decoded_frames := [[0xFF, 0xD8, 0, 0xFF, 0xD9]],
                 awaiting := [[1 / 10, 7 / 10, 2 / 10]]\<rparr>)"
proof -
  note t = input_built_without_size_check [of "[10, 20, 30, 255]" demo_env
      "[0xFF, 0xD8, 0, 0xFF, 0xD9]" 1 1 init]
  have d: "decode demo_env [0xFF, 0xD8, 0, 0xFF, 0xD9] = Decoded 1 1 [10, 20, 30, 255]"
    by (simp add: demo_env_def)
  from t have n: "\<And>k. k < 224 * 224 * 3 \<Longrightarrow> to_rgb [10, 20, 30, 255] ! k =
      (if 4 * (k div 3) < length [10, 20, 30, 255 :: byte]
       then load [10, 20, 30, 255] (4 * (k div 3) + k mod 3) else 0)"
    by blast
  from t d have b: "try_block demo_env init [0xFF, 0xD8, 0, 0xFF, 0xD9] =
     Await (init\<lparr>decoded_frames := [[0xFF, 0xD8, 0, 0xFF, 0xD9]],
                 awaiting := [[1 / 10, 7 / 10, 2 / 10]]\<rparr>)"
    by (simp add: demo_env_def init_def)
  from t have l: "length (to_rgb [10, 20, 30, 255]) = 224 * 224 * 3"
    by blast
  show ?thesis
    using d l b n [of 0] n [of 1] n [of 2] n [of 3] n [of 150527]
    by (simp add: load_def)
qed

subsection \<open>Reports\<close>

lemma reports_append [simp]: "reports (xs @ ys) = reports xs @ reports ys"
  by (induction xs rule: reports.induct) simp_all

lemma topK_sorted: "sorted_wrt (\<lambda>a b. p b \<le> p a) (topK probs k)"
proof -
  have "sorted (map (\<lambda>e. - p e) (sort_key (\<lambda>e. - p e) (entries probs)))"
    by (rule sorted_sort_key)
  then have "sorted_wrt (\<lambda>a b. p b \<le> p a) (sort_key (\<lambda>e. - p e) (entries probs))"
    by (simp add: sorted_map)
  then show ?thesis
    unfolding topK_def by (rule sorted_wrt_take)
qed

lemma topK_top:
  "\<exists>rest. mset (topK probs k @ rest) = mset (entries probs) \<and>
     (\<forall>a \<in> set (topK probs k). \<forall>b \<in> set rest. p b \<le> p a)"
proof -
  let ?s = "sort_key (\<lambda>e. - p e) (entries probs)"
  have "sorted (map (\<lambda>e. - p e) ?s)"
    by (rule sorted_sort_key)
  then have "sorted_wrt (\<lambda>a b. p b \<le> p a) (take k ?s @ drop k ?s)"
    by (simp add: sorted_map)
  then have "\<forall>a \<in> set (take k ?s). \<forall>b \<in> set (drop k ?s). p b \<le> p a"
    unfolding sorted_wrt_append by blast
  moreover have "mset (take k ?s @ drop k ?s) = mset (entries probs)"
    by simp
  ultimately show ?thesis
    unfolding topK_def by blast
qed

lemma length_entries [simp]: "length (entries probs) = length probs"
  by (simp add: entries_def)

lemma nth_entries:
  "i < length probs \<Longrightarrow>
   entries probs ! i =
     \<lparr>label = (if i < length LABELS then LABELS ! i else String i), p = probs ! i\<rparr>"
  by (simp add: entries_def nth_enumerate_eq)

lemma length_topK: "length (topK probs k) = min k (length probs)"
  by (simp add: topK_def)

lemma topK_Nil_iff: "topK probs 2 = [] \<longleftrightarrow> probs = []"
  using length_topK [of probs 2] by (cases probs) auto

lemma console_resume:
  assumes "awaiting st = probs # rest"
  shows "map reported (reports (console (resume st now))) =
     map reported (reports (console st)) @
       (if 500 < now - lastLog st \<and> probs \<noteq> [] then [topK probs 2] else [])"
proof (cases "500 < now - lastLog st")
  case False
  with assms show ?thesis
    by (simp add: resume_def after_await_def)
next
  case True
  show ?thesis
  proof (cases "topK probs 2")
    case Nil
    then have "probs = []" by (simp add: topK_Nil_iff)
    with assms True Nil show ?thesis
      by (simp add: resume_def after_await_def)
  next
    case (Cons b others)
    then have ne: "probs \<noteq> []"
      using topK_Nil_iff [of probs] by auto
    from Cons have "length others \<le> 1"
      using length_topK [of probs 2] by simp
    then have "b # (case others of [] \<Rightarrow> [] | s # _ \<Rightarrow> [s]) = b # others"
      by (cases others) auto
    then have "reported \<lparr>stamp = now, best = b,
        second = (case others of [] \<Rightarrow> None | s # _ \<Rightarrow> Some s)\<rparr> = topK probs 2"
      using Cons by (cases others) (simp_all add: reported_def)
    with assms True Cons ne show ?thesis
      by (simp add: resume_def after_await_def)
  qed
qed

lemma throttled_init: "throttled init"
  by (simp add: throttled_def init_def)

lemma throttled_callback: "throttled st \<Longrightarrow> throttled (callback e st f)"
  by (simp add: throttled_def on_frame_def try_block_def forward_def Let_def
      split: decoded.split option.split)

lemma throttled_foldl: "throttled st \<Longrightarrow> throttled (foldl (callback e) st fs)"
  by (induction fs arbitrary: st) (simp_all add: throttled_callback)

lemma throttled_resume:
  assumes "throttled st"
  shows "throttled (resume st now)"
proof (cases "awaiting st")
  case Nil
  with assms show ?thesis by (simp add: resume_def)
next
  case (Cons probs rest)
  show ?thesis
  proof (cases "500 < now - lastLog st")
    case False
    with assms Cons show ?thesis
      by (simp add: resume_def after_await_def throttled_def)
  next
    case True
    from assms have old: "\<And>r. r \<in> set (reports (console st)) \<Longrightarrow> stamp r \<le> lastLog st"
      and srt: "sorted_wrt (\<lambda>a b. 500 < b - a) (map stamp (reports (console st)))"
      by (simp_all add: throttled_def)
    have gap: "500 < now - stamp r \<and> stamp r \<le> now" if "r \<in> set (reports (console st))" for r
      using old [OF that] True by linarith
    show ?thesis
    proof (cases "topK probs 2")
      case Nil
      with Cons True srt gap show ?thesis
        by (simp add: resume_def after_await_def throttled_def)
    next
      case (Cons b others)
      with \<open>awaiting st = probs # rest\<close> True srt gap show ?thesis
        by (auto simp: resume_def after_await_def throttled_def sorted_wrt_append)
    qed
  qed
qed

lemma throttled_reject: "throttled st \<Longrightarrow> throttled (reject st)"
  by (cases "awaiting st") (simp_all add: throttled_def reject_def)

lemma throttled_run: "throttled (snd (run e events))"
proof (induction events rule: rev_induct)
  case Nil
  show ?case by (simp add: run_def throttled_init)
next
  case (snoc ev events)
  obtain buf st where rs: "run e events = (buf, st)"
    by (cases "run e events")
  with snoc have t: "throttled st" by simp
  have r: "run e (events @ [ev]) = step e (buf, st) ev"
    using rs by (simp add: run_def)
  show ?case
  proof (cases ev)
    case (Data chunk)
    with r t show ?thesis
      by (simp add: feed_def parse_loop_split throttled_foldl)
  next
    case (Resolved now)
    with r t show ?thesis
      by (simp add: throttled_resume)
  next
    case Rejected
    with r t show ?thesis
      by (simp add: throttled_reject)
  next
    case PlayerExit
    with r t show ?thesis
      by (simp add: throttled_def)
  qed
qed

text \<open>
  Claim C9. \<^verbatim>\<open>topK\<close> returns its entries by descending probability; with \<open>k = 2\<close>
  they are at most two; they are the first \<open>k\<close> of a rearrangement of all the entries,
  and no entry left out has a larger probability than one returned. The entry of index
  \<open>i\<close> is named by \<^verbatim>\<open>LABELS[i]\<close> when there is such a label and by the decimal digits
  of \<open>i\<close> otherwise. A resumed inference prints at most one report, which shows exactly
  the entries of \<^verbatim>\<open>topK(probs, 2)\<close>, and only when more than 500 ms have passed since
  \<open>lastLog\<close>. In every run, whatever the events and the values of the clock, any two
  reports are more than 500 ms apart.
\<close>

theorem reporting_policy:
  "sorted_wrt (\<lambda>a b. p b \<le> p a) (topK probs k) \<and>
   length (topK probs 2) \<le> 2 \<and>
   (\<exists>rest. mset (topK probs k @ rest) = mset (entries probs) \<and>
      (\<forall>a \<in> set (topK probs k). \<forall>b \<in> set rest. p b \<le> p a)) \<and>
   length (entries probs) = length probs \<and>
   (\<forall>i < length probs.
      entries probs ! i =
        \<lparr>label = (if i < length LABELS then LABELS ! i else String i), p = probs ! i\<rparr>) \<and>
   (awaiting st = probs # others \<longrightarrow>
      map reported (reports (console (resume st now))) =
        map reported (reports (console st)) @
          (if 500 < now - lastLog st \<and> probs \<noteq> [] then [topK probs 2] else [])) \<and>
   sorted_wrt (\<lambda>a b. 500 < b - a) (map stamp (reports (console (snd (run e events)))))"
proof -
  have "length (topK probs 2) \<le> 2"
    by (simp add: length_topK)
  moreover have "sorted_wrt (\<lambda>a b. 500 < b - a) (map stamp (reports (console (snd (run e events)))))"
    using throttled_run [of e events] by (simp add: throttled_def)
  ultimately show ?thesis
    using topK_sorted [of probs k] topK_top [of probs k] nth_entries [of _ probs]
      console_resume [of st probs others now]
    by (simp only: length_entries) blast
qed

lemma demo_topK:
  "topK [1 / 20, 3 / 5, 1 / 20, 1 / 5, 3 / 100, 7 / 100] 2 =
     [\<lparr>label = ''STRONG'', p = 3 / 5\<rparr>, \<lparr>label = ''SORRY'', p = 1 / 5\<rparr>]"
  by (simp add: topK_def entries_def LABELS_def String.simps)

lemma demo_throttle:
  "map stamp (reports (console (snd (run demo_env
     [Data [0xFF, 0xD8, 0, 0xFF, 0xD9], Resolved 1000,
      Data [0xFF, 0xD8, 0, 0xFF, 0xD9], Resolved 1400,
      Data [0xFF, 0xD8, 0, 0xFF, 0xD9], Resolved 1501])))) = [1000, 1501]"
  by (simp add: run_def feed_def parse_loop.simps indexOf_def SOI_def EOI_def subarray_def
      subarray_from_def init_def on_frame_def try_block_def forward_def demo_env_def Let_def
      resume_def after_await_def topK_def entries_def LABELS_def)

theorem reporting_policy_witness:
  "topK [1 / 20, 3 / 5, 1 / 20, 1 / 5, 3 / 100, 7 / 100] 2 =
     [\<lparr>label = ''STRONG'', p = 3 / 5\<rparr>, \<lparr>label = ''SORRY'', p = 1 / 5\<rparr>] \<and>
   sorted_wrt (\<lambda>a b. p b \<le> p a)
     (topK [1 / 20, 3 / 5, 1 / 20, 1 / 5, 3 / 100, 7 / 100] 2) \<and>
   entries [1 / 20, 3 / 5, 1 / 20, 1 / 5, 3 / 100, 7 / 100] ! 5 =
     \<lparr>label = ''5'', p = 7 / 100\<rparr> \<and>
   map reported (reports (console (resume
     (init\<lparr>busy := True,
            awaiting := [[1 / 20, 3 / 5, 1 / 20, 1 / 5, 3 / 100, 7 / 100]]\<rparr>) 1000))) =
     [[\<lparr>label = ''STRONG'', p = 3 / 5\<rparr>, \<lparr>label = ''SORRY'', p = 1 / 5\<rparr>]] \<and>
   map stamp (reports (console (snd (run demo_env
     [Data [0xFF, 0xD8, 0, 0xFF, 0xD9], Resolved 1000,
      Data [0xFF, 0xD8, 0, 0xFF, 0xD9], Resolved 1400,
      Data [0xFF, 0xD8, 0, 0xFF, 0xD9], Resolved 1501])))) = [1000, 1501] \<and>
   sorted_wrt (\<lambda>a b. 500 < b - a) [1000, 1501 :: int]"
proof -
  note t = reporting_policy [of "[1 / 20, 3 / 5, 1 / 20, 1 / 5, 3 / 100, 7 / 100]" 2
      "init\<lparr>busy := True,
            awaiting := [[1 / 20, 3 / 5, 1 / 20, 1 / 5, 3 / 100, 7 / 100]]\<rparr>"
      "[]" 1000 demo_env
      "[Data [0xFF, 0xD8, 0, 0xFF, 0xD9], Resolved 1000,
        Data [0xFF, 0xD8, 0, 0xFF, 0xD9], Resolved 1400,
        Data [0xFF, 0xD8, 0, 0xFF, 0xD9], Resolved 1501]"]
  from t have 1: "sorted_wrt (\<lambda>a b. p b \<le> p a)
     (topK [1 / 20, 3 / 5, 1 / 20, 1 / 5, 3 / 100, 7 / 100] 2)"
    by blast
  from t have "\<forall>i < length [1 / 20, 3 / 5, 1 / 20, 1 / 5, 3 / 100, 7 / 100 :: real].
      entries [1 / 20, 3 / 5, 1 / 20, 1 / 5, 3 / 100, 7 / 100] ! i =
        \<lparr>label = (if i < length LABELS then LABELS ! i else String i),
           p = [1 / 20, 3 / 5, 1 / 20, 1 / 5, 3 / 100, 7 / 100] ! i\<rparr>"
    by blast
  then have 2: "entries [1 / 20, 3 / 5, 1 / 20, 1 / 5, 3 / 100, 7 / 100] ! 5 =
     \<lparr>label = ''5'', p = 7 / 100\<rparr>"
    by (simp add: LABELS_def String.simps)
  from t have 3: "map reported (reports (console (resume
     (init\<lparr>busy := True,
            awaiting := [[1 / 20, 3 / 5, 1 / 20, 1 / 5, 3 / 100, 7 / 100]]\<rparr>) 1000))) =
     [[\<lparr>label = ''STRONG'', p = 3 / 5\<rparr>, \<lparr>label = ''SORRY'', p = 1 / 5\<rparr>]]"
    by (simp add: init_def demo_topK)
  from t have 4: "sorted_wrt (\<lambda>a b. 500 < b - a) [1000, 1501 :: int]"
    by (simp only: demo_throttle)
  from demo_topK 1 2 3 demo_throttle 4 show ?thesis
    by (intro conjI)
qed

subsection \<open>The label distribution\<close>

lemma shape_input_tensor: "shape (input_tensor rgba) = [1, 224, 224, 3]"
  by (simp add: input_tensor_def tf_normalize_def tf_tensor3d_def WIDTH_def HEIGHT_def)

lemma length_input_tensor: "length (vals (input_tensor rgba)) = 224 * 224 * 3"
  by (simp add: input_tensor_def tf_normalize_def tf_tensor3d_def length_to_rgb)

lemma nth_input_tensor:
  assumes "k < 224 * 224 * 3"
  shows "vals (input_tensor rgba) ! k =
     real (unat (if 4 * (k div 3) < length rgba
                 then load rgba (4 * (k div 3) + k mod 3) else 0)) / 255"
proof -
  have "k < length (to_rgb rgba)"
    using assms by (simp add: length_to_rgb)
  then have "vals (input_tensor rgba) ! k = real (unat (to_rgb rgba ! k)) / 255"
    by (simp add: input_tensor_def tf_normalize_def tf_tensor3d_def)
  then show ?thesis
    by (simp only: nth_to_rgb [OF assms])
qed

lemma byte_scaled: "0 \<le> real (unat (b :: byte)) / 255 \<and> real (unat b) / 255 \<le> 1"
proof -
  have "unat b < 2 ^ 8"
    using unsigned_less [of b, where ?'a = nat] by simp
  then have "unat b \<le> 255"
    by simp
  then have "real (unat b) \<le> real 255"
    by (rule of_nat_mono)
  moreover have "0 \<le> real (unat b)"
    by (rule of_nat_0_le_iff)
  ultimately show ?thesis by simp
qed

lemma input_tensor_range:
  assumes "x \<in> set (vals (input_tensor rgba))"
  shows "0 \<le> x \<and> x \<le> 1"
proof -
  from assms obtain b where "x = real (unat (b :: byte)) / 255"
    by (auto simp: input_tensor_def tf_normalize_def tf_tensor3d_def)
  then show ?thesis
    using byte_scaled [of b] by simp
qed

lemma sum_list_exp_pos:
  assumes "xs \<noteq> []"
  shows "0 < sum_list (map exp (xs :: real list))"
proof (cases xs)
  case Nil
  with assms show ?thesis by simp
next
  case (Cons a ys)
  have "0 \<le> sum_list (map exp ys)"
    by (rule sum_list_nonneg) auto
  moreover have "0 < exp a"
    by simp
  ultimately have "0 < exp a + sum_list (map exp ys)"
    by (rule add_pos_nonneg [rotated])
  with Cons show ?thesis by simp
qed

lemma sum_list_divide: "sum_list (map (\<lambda>x. f x / c) xs) = sum_list (map f xs) / (c :: real)"
  by (induction xs) (simp_all add: add_divide_distrib)

lemma sum_softmax:
  assumes "vals t \<noteq> []"
  shows "sum_list (vals (tf_softmax t)) = 1"
proof -
  have "0 < sum_list (map exp (vals t))"
    using assms by (rule sum_list_exp_pos)
  then show ?thesis
    by (simp add: tf_softmax_def sum_list_divide)
qed

lemma softmax_range:
  assumes "q \<in> set (vals (tf_softmax t))"
  shows "0 < q \<and> q \<le> 1"
proof -
  from assms obtain x where x: "x \<in> set (vals t)"
    and q: "q = exp x / sum_list (map exp (vals t))"
    by (auto simp: tf_softmax_def)
  from x have ne: "vals t \<noteq> []" by auto
  then have pos: "0 < sum_list (map exp (vals t))"
    by (rule sum_list_exp_pos)
  have "exp x \<le> sum_list (map exp (vals t))"
    using x by (intro member_le_sum_list) auto
  with pos q show ?thesis
    by simp
qed

lemma try_block_tf_env:
  assumes "dec f = Decoded w h rgba" and "model (input_tensor rgba) = Some out"
  shows "try_block (tf_env dec model) st f =
     Await (st\<lparr>decoded_frames := decoded_frames st @ [f],
               awaiting := awaiting st @ [vals (tf_softmax out)]\<rparr>)"
  using assms by (simp add: try_block_def tf_env_def input_tensor_def Let_def)

text \<open>
  Claim C8, with the operations of tfjs modelled from the spec over the reals. The input
  of the classifier is a batch of one image of shape 224, 224, 3; its numbers are the
  red, green and blue bytes of the decoded pixels, in this order and without the alpha
  byte, each divided by 255, so each lies between 0 and 1. For a frame that decodes and
  a classifier that answers, the call is suspended with the softmax of the answer as
  the distribution it will report. The softmax has one probability for each score, each
  above 0 and at most 1, and when there is a score at all they sum to 1.
\<close>

theorem label_distribution_normalized:
  "shape (input_tensor rgba) = [1, 224, 224, 3] \<and>
   length (vals (input_tensor rgba)) = 224 * 224 * 3 \<and>
   (\<forall>k < 224 * 224 * 3.
      vals (input_tensor rgba) ! k =
        real (unat (if 4 * (k div 3) < length rgba
                    then load rgba (4 * (k div 3) + k mod 3) else 0)) / 255) \<and>
   (\<forall>x \<in> set (vals (input_tensor rgba)). 0 \<le> x \<and> x \<le> 1) \<and>
   (dec f = Decoded w h rgba \<and> model (input_tensor rgba) = Some out \<longrightarrow>
      try_block (tf_env dec model) st f =
        Await (st\<lparr>decoded_frames := decoded_frames st @ [f],
                  awaiting := awaiting st @ [vals (tf_softmax out)]\<rparr>)) \<and>
   length (vals (tf_softmax out)) = length (vals out) \<and>
   (\<forall>q \<in> set (vals (tf_softmax out)). 0 < q \<and> q \<le> 1) \<and>
   (vals out \<noteq> [] \<longrightarrow> sum_list (vals (tf_softmax out)) = 1)"
proof -
  have "length (vals (tf_softmax out)) = length (vals out)"
    by (simp add: tf_softmax_def)
  then show ?thesis
    using shape_input_tensor [of rgba] length_input_tensor [of rgba] nth_input_tensor [of _ rgba]
      input_tensor_range [of _ rgba] try_block_tf_env [of dec f w h rgba model out st]
      softmax_range [of _ out] sum_softmax [of out]
    by blast
qed

lemma demo_softmax:
  "vals (tf_softmax \<lparr>shape = dims, vals = [0, ln 3]\<rparr>) = [1 / 4, 3 / 4]"
  by (simp add: tf_softmax_def)

theorem label_distribution_normalized_witness:
  "vals (input_tensor [10, 20, 30, 255]) ! 0 = 2 / 51 \<and>
   vals (input_tensor [10, 20, 30, 255]) ! 3 = 0 \<and>
   try_block
     (tf_env (\<lambda>jpegBuf. Decoded 1 1 [10, 20, 30, 255])
        (\<lambda>t. Some \<lparr>shape = [1, 2], vals = [0, ln 3]\<rparr>))
     init [0xFF, 0xD8, 0, 0xFF, 0xD9] =
     Await (init\<lparr>decoded_frames := [[0xFF, 0xD8, 0, 0xFF, 0xD9]],
                 awaiting := [[1 / 4, 3 / 4]]\<rparr>) \<and>
   sum_list (vals (tf_softmax \<lparr>shape = [1, 2], vals = [0, ln 3]\<rparr>)) = 1"
proof -
  note t = label_distribution_normalized [where rgba = "[10, 20, 30, 255]"
      and dec = "\<lambda>jpegBuf. Decoded 1 1 [10, 20, 30, 255]"
      and model = "\<lambda>t. Some \<lparr>shape = [1, 2], vals = [0, ln 3]\<rparr>"
      and out = "\<lparr>shape = [1, 2], vals = [0, ln 3]\<rparr>"
      and f = "[0xFF, 0xD8, 0, 0xFF, 0xD9]" and w = 1 and h = 1 and st = init]
  from t have n: "\<And>k. k < 224 * 224 * 3 \<Longrightarrow> vals (input_tensor [10, 20, 30, 255]) ! k =
      real (unat (if 4 * (k div 3) < length [10, 20, 30, 255 :: byte]
                  then load [10, 20, 30, 255] (4 * (k div 3) + k mod 3) else 0)) / 255"
    by blast
  have 1: "vals (input_tensor [10, 20, 30, 255]) ! 0 = 2 / 51"
    using n [of 0] by (simp add: load_def)
  have 2: "vals (input_tensor [10, 20, 30, 255]) ! 3 = 0"
    using n [of 3] by (simp add: load_def)
  from t have 3: "try_block
     (tf_env (\<lambda>jpegBuf. Decoded 1 1 [10, 20, 30, 255])
        (\<lambda>t. Some \<lparr>shape = [1, 2], vals = [0, ln 3]\<rparr>))
     init [0xFF, 0xD8, 0, 0xFF, 0xD9] =
     Await (init\<lparr>decoded_frames := [[0xFF, 0xD8, 0, 0xFF, 0xD9]],
                 awaiting := [[1 / 4, 3 / 4]]\<rparr>)"
    by (simp add: demo_softmax init_def)
  from t have 4: "sum_list (vals (tf_softmax \<lparr>shape = [1, 2], vals = [0, ln 3]\<rparr>)) = 1"
    by simp
  from 1 2 3 4 show ?thesis
    by (intro conjI)
qed

end
